theory Spec2Isabelle
  imports Main
begin

section \<open>Query builder (\<open>parse_args\<close>, the part that assembles \<open>o.searchQuery\<close>)\<close>

text \<open>
  The filter options as \<open>argparse\<close> delivers them: an option that was not given is
  \<open>None\<close>, an option that was given carries its text (which may be empty).
\<close>

record criteria =
  before :: "string option"
  after :: "string option"
  bug :: "string option"
  advisory :: "string option"
  severity :: "string option"
  package :: "string option"
  cwe :: "string option"
  cvss_score :: "string option"
  cvss3_score :: "string option"
  rawquery :: "string option"

text \<open>Python's truth value of an option: \<open>None\<close> and the empty text are false.\<close>

fun truthy :: "string option \<Rightarrow> bool" where
  "truthy None = False"
| "truthy (Some s) = (s \<noteq> [])"

text \<open>One step \<open>if o.x: o.searchQuery += '&x={0}'.format(o.x)\<close>.\<close>

fun add_criterion :: "string \<Rightarrow> string option \<Rightarrow> string \<Rightarrow> string" where
  "add_criterion name None q = q"
| "add_criterion name (Some s) q = (if s \<noteq> [] then q @ ''&'' @ name @ ''='' @ s else q)"

text \<open>The last step \<open>if o.rawquery: o.searchQuery += '&{0}'.format(o.rawquery)\<close>.\<close>

fun add_rawquery :: "string option \<Rightarrow> string \<Rightarrow> string" where
  "add_rawquery None q = q"
| "add_rawquery (Some s) q = (if s \<noteq> [] then q @ ''&'' @ s else q)"

definition searchQuery :: "criteria \<Rightarrow> string" where
  "searchQuery c =
     (let q = [];
          q = add_criterion ''before'' (before c) q;
          q = add_criterion ''after'' (after c) q;
          q = add_criterion ''bug'' (bug c) q;
          q = add_criterion ''advisory'' (advisory c) q;
          q = add_criterion ''severity'' (severity c) q;
          q = add_criterion ''package'' (package c) q;
          q = add_criterion ''cwe'' (cwe c) q;
          q = add_criterion ''cvss_score'' (cvss_score c) q;
          q = add_criterion ''cvss3_score'' (cvss3_score c) q;
          q = add_rawquery (rawquery c) q
      in q)"

text \<open>
  The specification's reading of the builder, to compare with: a table of the nine
  named criteria in their fixed order, each contributing \<open>&name=value\<close> when it is
  non-empty, followed by the raw fragment.
\<close>

definition named_criteria :: "criteria \<Rightarrow> (string \<times> string option) list" where
  "named_criteria c =
     [(''before'', before c), (''after'', after c), (''bug'', bug c),
      (''advisory'', advisory c), (''severity'', severity c), (''package'', package c),
      (''cwe'', cwe c), (''cvss_score'', cvss_score c), (''cvss3_score'', cvss3_score c)]"

fun fragment :: "string \<times> string option \<Rightarrow> string" where
  "fragment (name, None) = []"
| "fragment (name, Some s) = (if s \<noteq> [] then ''&'' @ name @ ''='' @ s else [])"

fun raw_fragment :: "string option \<Rightarrow> string" where
  "raw_fragment None = []"
| "raw_fragment (Some s) = (if s \<noteq> [] then ''&'' @ s else [])"

definition no_criteria :: criteria where
  "no_criteria =
     \<lparr>before = None, after = None, bug = None, advisory = None, severity = None,
      package = None, cwe = None, cvss_score = None, cvss3_score = None, rawquery = None\<rparr>"

section \<open>Byte strings\<close>

text \<open>
  The program runs under Python 2: its \<open>str\<close> values are byte strings, modelled as
  \<open>string\<close>. A text value decoded from JSON is represented by its UTF-8 encoding, so
  that \<open>.encode('utf-8')\<close> is the identity on the representation.
\<close>

text \<open>The whitespace of \<open>str.strip()\<close>, of \<open>\s\<close> and of \<open>string.whitespace\<close>.\<close>

definition is_space :: "char \<Rightarrow> bool" where
  "is_space c \<longleftrightarrow>
     c = CHR 0x09 \<or> c = CHR 0x0A \<or> c = CHR 0x0B \<or> c = CHR 0x0C \<or> c = CHR 0x0D \<or> c = CHR '' ''"

definition is_digit :: "char \<Rightarrow> bool" where
  "is_digit c \<longleftrightarrow> 48 \<le> (of_char c :: nat) \<and> (of_char c :: nat) \<le> 57"

definition is_alpha :: "char \<Rightarrow> bool" where
  "is_alpha c \<longleftrightarrow>
     65 \<le> (of_char c :: nat) \<and> (of_char c :: nat) \<le> 90 \<or>
     97 \<le> (of_char c :: nat) \<and> (of_char c :: nat) \<le> 122"

text \<open>The class \<open>\w\<close> of a byte pattern compiled without flags.\<close>

definition is_word :: "char \<Rightarrow> bool" where
  "is_word c \<longleftrightarrow> is_alpha c \<or> is_digit c \<or> c = CHR ''_''"

definition is_ascii :: "string \<Rightarrow> bool" where
  "is_ascii s \<longleftrightarrow> list_all (\<lambda>c. (of_char c :: nat) < 128) s"

definition strip :: "string \<Rightarrow> string" where
  "strip s = rev (dropWhile is_space (rev (dropWhile is_space s)))"

text \<open>\<open>str.lstrip(chars)\<close>: drops leading characters that occur in \<open>chars\<close>.\<close>

definition lstrip :: "string \<Rightarrow> string \<Rightarrow> string" where
  "lstrip chars s = dropWhile (\<lambda>c. c \<in> set chars) s"

definition startswith :: "string \<Rightarrow> string \<Rightarrow> bool" where
  "startswith s p \<longleftrightarrow> take (length p) s = p"

text \<open>\<open>sep.join(xs)\<close>.\<close>

fun join :: "string \<Rightarrow> string list \<Rightarrow> string" where
  "join sep [] = []"
| "join sep [x] = x"
| "join sep (x # y # ys) = x @ sep @ join sep (y # ys)"

text \<open>\<open>str.split(",")\<close>: never returns an empty list.\<close>

fun split_comma :: "string \<Rightarrow> string list" where
  "split_comma [] = [[]]"
| "split_comma (c # cs) =
     (if c = CHR '','' then [] # split_comma cs
      else (case split_comma cs of
              [] \<Rightarrow> [[c]]
            | x # xs \<Rightarrow> (c # x) # xs))"

text \<open>\<open>re.sub(r"\n+", "  ", text)\<close>: every maximal run of newlines becomes two spaces.\<close>

function sub_newlines :: "string \<Rightarrow> string" where
  "sub_newlines [] = []"
| "sub_newlines (c # cs) =
     (if c = CHR 0x0A then ''  '' @ sub_newlines (dropWhile (\<lambda>d. d = CHR 0x0A) cs)
      else c # sub_newlines cs)"
  by pat_completeness auto
termination
  by (relation "measure length") (auto simp: le_imp_less_Suc length_dropWhile_le)

text \<open>Decimal text of a number, as \<open>'{0}'.format(n)\<close> prints an \<open>int\<close>.\<close>

function str_nat :: "nat \<Rightarrow> string" where
  "str_nat n = (if n < 10 then [char_of (48 + n)] else str_nat (n div 10) @ [char_of (48 + n mod 10)])"
  by pat_completeness auto
termination
  by (relation "measure id") auto

definition str_int :: "int \<Rightarrow> string" where
  "str_int i = (if i < 0 then ''-'' @ str_nat (nat (- i)) else str_nat (nat i))"

section \<open>The standard library's \<open>textwrap.TextWrapper\<close> (Python 2.7)\<close>

text \<open>
  \<open>RHSecApiParse.__init__\<close> builds
  \<open>textwrap.TextWrapper(width=wrapWidth, initial_indent="   ", subsequent_indent="   ")\<close>;
  every other option keeps its default (\<open>expand_tabs\<close>, \<open>replace_whitespace\<close>,
  \<open>break_long_words\<close>, \<open>drop_whitespace\<close>, \<open>break_on_hyphens\<close> on,
  \<open>fix_sentence_endings\<close> off). The definitions follow the methods of the class.
\<close>

text \<open>\<open>str.expandtabs()\<close>: tab stops every 8 columns, the column restarts after a line end.\<close>

fun expandtabs_from :: "nat \<Rightarrow> string \<Rightarrow> string" where
  "expandtabs_from col [] = []"
| "expandtabs_from col (c # cs) =
     (if c = CHR 0x09
      then replicate (8 - col mod 8) CHR '' '' @ expandtabs_from (col + (8 - col mod 8)) cs
      else c # expandtabs_from (if c = CHR 0x0A \<or> c = CHR 0x0D then 0 else Suc col) cs)"

definition expandtabs :: "string \<Rightarrow> string" where
  "expandtabs s = expandtabs_from 0 s"

definition munge_whitespace :: "string \<Rightarrow> string" where
  "munge_whitespace text = map (\<lambda>c. if is_space c then CHR '' '' else c) (expandtabs text)"

text \<open>
  \<open>_split\<close> cuts the text at the matches of
  \<^verbatim>\<open>(\s+|[^\s\w]*\w+[^0-9\W]-(?=\w+[^0-9\W])|(?<=[\w\!\"\'\&\.\,\?])-{2,}(?=\w))\<close>,
  keeps the matches as chunks and drops empty chunks. The three alternatives are tried in
  this order at each position, from left to right. Each function below gives the length
  of the match of one alternative at the start of its argument.
\<close>

definition ws_match :: "string \<Rightarrow> nat option" where
  "ws_match s = (case takeWhile is_space s of [] \<Rightarrow> None | r \<Rightarrow> Some (length r))"

text \<open>
  A hyphenated word: punctuation, then a run of at least two word characters that ends
  in a non-digit, then a hyphen, provided that the word characters after the hyphen are
  at least two with a non-digit after the first.
\<close>

definition hyphen_match :: "string \<Rightarrow> nat option" where
  "hyphen_match s =
     (let p = takeWhile (\<lambda>c. \<not> is_space c \<and> \<not> is_word c) s;
          r1 = drop (length p) s;
          wd = takeWhile is_word r1;
          r2 = drop (length wd) r1
      in (case r2 of
            [] \<Rightarrow> None
          | h # r3 \<Rightarrow>
              if 2 \<le> length wd \<and> \<not> is_digit (last wd) \<and> h = CHR ''-'' \<and>
                 2 \<le> length (takeWhile is_word r3) \<and>
                 list_ex (\<lambda>c. \<not> is_digit c) (tl (takeWhile is_word r3))
              then Some (length p + length wd + 1)
              else None))"

text \<open>An em-dash: two or more hyphens between a word or punctuation character and a word character.\<close>

definition dash_match :: "char option \<Rightarrow> string \<Rightarrow> nat option" where
  "dash_match prev s =
     (case prev of
        None \<Rightarrow> None
      | Some b \<Rightarrow>
          (let d = takeWhile (\<lambda>c. c = CHR ''-'') s in
           if (is_word b \<or> b \<in> set ([CHR ''!'', CHR 0x22, CHR 0x27] @ ''&.,?'')) \<and> 2 \<le> length d \<and>
              (case drop (length d) s of [] \<Rightarrow> False | c # _ \<Rightarrow> is_word c)
           then Some (length d)
           else None))"

definition sep_match :: "char option \<Rightarrow> string \<Rightarrow> nat option" where
  "sep_match prev s =
     (case ws_match s of
        Some n \<Rightarrow> Some n
      | None \<Rightarrow> (case hyphen_match s of Some n \<Rightarrow> Some n | None \<Rightarrow> dash_match prev s))"

text \<open>
  The scan: \<open>prev\<close> is the character before the current position, \<open>pending\<close> the text
  since the last match.
\<close>

definition flush :: "string \<Rightarrow> string list" where
  "flush pending = (if pending = [] then [] else [pending])"

function split_from :: "char option \<Rightarrow> string \<Rightarrow> string \<Rightarrow> string list" where
  "split_from prev pending [] = flush pending"
| "split_from prev pending (c # cs) =
     (case sep_match prev (c # cs) of
        None \<Rightarrow> split_from (Some c) (pending @ [c]) cs
      | Some n \<Rightarrow>
          flush pending @
          (c # take (n - 1) cs) # split_from (Some (last (c # take (n - 1) cs))) [] (drop (n - 1) cs))"
  by pat_completeness auto
termination
  by (relation "measure (\<lambda>(prev, pending, s). length s)") auto

definition split_chunks :: "string \<Rightarrow> string list" where
  "split_chunks text = split_from None [] text"

text \<open>
  How a piece of code can stop other than by returning: an uncaught exception, a call of
  \<open>exit\<close>, or a loop that never ends.
\<close>

datatype exn = KeyError string | TypeError | AttributeError | UnicodeEncodeError | ValueError

datatype halt = Raised exn | Exit nat | Hangs

text \<open>\<open>chunk.strip() == ''\<close>.\<close>

definition blank :: "string \<Rightarrow> bool" where
  "blank chunk \<longleftrightarrow> strip chunk = []"

text \<open>The inner loop of \<open>_wrap_chunks\<close>: chunks are taken while they fit on the line.\<close>

fun fill_line :: "int \<Rightarrow> string list \<Rightarrow> int \<Rightarrow> string list \<Rightarrow> string list \<times> int \<times> string list" where
  "fill_line width cur_line cur_len [] = (cur_line, cur_len, [])"
| "fill_line width cur_line cur_len (c # chunks) =
     (if cur_len + int (length c) \<le> width
      then fill_line width (cur_line @ [c]) (cur_len + int (length c)) chunks
      else (cur_line, cur_len, c # chunks))"

text \<open>The slices \<open>s[:n]\<close> and \<open>s[n:]\<close>; a negative \<open>n\<close> counts from the end.\<close>

definition slice_to :: "int \<Rightarrow> string \<Rightarrow> string" where
  "slice_to n s = (if 0 \<le> n then take (nat n) s else take (length s - nat (- n)) s)"

definition slice_from :: "int \<Rightarrow> string \<Rightarrow> string" where
  "slice_from n s = (if 0 \<le> n then drop (nat n) s else drop (length s - nat (- n)) s)"

fun handle_long_word :: "string list \<Rightarrow> string list \<Rightarrow> int \<Rightarrow> int \<Rightarrow> string list \<times> string list" where
  "handle_long_word [] cur_line cur_len width = ([], cur_line)"
| "handle_long_word (c # chunks) cur_line cur_len width =
     (let space_left = (if width < 1 then 1 else width - cur_len)
      in (slice_from space_left c # chunks, cur_line @ [slice_to space_left c]))"

text \<open>First chunk on the line is whitespace: drop it, unless no line was started yet.\<close>

fun drop_leading :: "bool \<Rightarrow> string list \<Rightarrow> string list" where
  "drop_leading started [] = []"
| "drop_leading started (c # chunks) = (if blank c \<and> started then chunks else c # chunks)"

text \<open>The line is full and the next chunk is too big to fit on any line.\<close>

fun too_long :: "int \<Rightarrow> string list \<Rightarrow> int \<Rightarrow> string list \<Rightarrow> string list \<times> string list" where
  "too_long width cur_line cur_len [] = ([], cur_line)"
| "too_long width cur_line cur_len (c # chunks) =
     (if int (length c) > width then handle_long_word (c # chunks) cur_line cur_len width
      else (c # chunks, cur_line))"

text \<open>If the last chunk on the line is all whitespace, drop it.\<close>

definition drop_trailing :: "string list \<Rightarrow> string list" where
  "drop_trailing cur_line =
     (if cur_line \<noteq> [] \<and> blank (last cur_line) then butlast cur_line else cur_line)"

text \<open>
  One round of the outer loop of \<open>_wrap_chunks\<close>: the line it adds, if any, and the
  chunks that remain. \<open>started\<close> says whether \<open>lines\<close> is non-empty.
\<close>

definition next_line :: "int \<Rightarrow> bool \<Rightarrow> string list \<Rightarrow> string option \<times> string list" where
  "next_line self_width started chunks =
     (let indent = ''   '';
          width = self_width - int (length indent);
          chunks = drop_leading started chunks;
          (cur_line, cur_len, chunks) = fill_line width [] 0 chunks;
          (chunks, cur_line) = too_long width cur_line cur_len chunks;
          cur_line = drop_trailing cur_line
      in (if cur_line \<noteq> [] then Some (indent @ concat cur_line) else None, chunks))"

text \<open>
  The loop makes progress when a round removes a chunk or shortens one. A round that
  leaves both the chunks and the lines as they were repeats forever in the source; the
  model reports it as \<open>Hangs\<close>.
\<close>

definition weight :: "string list \<Rightarrow> nat" where
  "weight chunks = sum_list (map (\<lambda>c. Suc (length c)) chunks)"

lemma fill_line_weight:
  "fill_line width cl n cs = (cl', n', cs') \<Longrightarrow>
     (cs' = cs \<and> cl' = cl) \<or> weight cs' < weight cs"
proof (induction cs arbitrary: cl n)
  case Nil
  then show ?case by simp
next
  case (Cons c cs)
  show ?case
  proof (cases "n + int (length c) \<le> width")
    case True
    with Cons.prems have "fill_line width (cl @ [c]) (n + int (length c)) cs = (cl', n', cs')"
      by simp
    from Cons.IH[OF this] show ?thesis by (auto simp: weight_def)
  next
    case False
    with Cons.prems show ?thesis by simp
  qed
qed

lemma blank_Nil: "blank []"
  by (simp add: blank_def strip_def)

lemma slice_weight:
  "weight (slice_from k c # rest) < weight (c # rest) \<or>
   (slice_from k c = c \<and> slice_to k c = [])"
proof (cases "c = [] \<or> k = 0 \<or> (k < 0 \<and> length c \<le> nat (- k))")
  case True
  then show ?thesis by (auto simp: slice_from_def slice_to_def)
next
  case False
  then have "length (slice_from k c) < length c"
    by (auto simp: slice_from_def)
  then show ?thesis by (simp add: weight_def)
qed

lemma weight_Cons: "weight (c # cs) = Suc (length c) + weight cs"
  by (simp add: weight_def)

lemma too_long_weight:
  assumes "too_long width cl n cs = (cs', cl')"
  shows "(cs' = cs \<and> (cl' = cl \<or> cl' = cl @ [[]])) \<or> weight cs' < weight cs"
proof (cases cs)
  case Nil
  with assms show ?thesis by auto
next
  case (Cons c rest)
  with assms show ?thesis
    using slice_weight[of "if width < 1 then 1 else width - n" c rest]
    by (auto simp: Let_def split: if_splits)
qed

lemma drop_leading_weight:
  "drop_leading started cs = cs \<or> weight (drop_leading started cs) < weight cs"
  by (cases cs) (auto simp: weight_Cons)

lemma next_line_weight:
  assumes "next_line w started chunks = (l, chunks')"
  shows "weight chunks' < weight chunks \<or> (chunks' = chunks \<and> l = None)"
proof -
  obtain cl n cs2 where fl: "fill_line (w - 3) [] 0 (drop_leading started chunks) = (cl, n, cs2)"
    by (metis prod_cases3)
  obtain cs3 cl3 where tl: "too_long (w - 3) cl n cs2 = (cs3, cl3)"
    by fastforce
  have res: "chunks' = cs3"
    "l = (if drop_trailing cl3 \<noteq> [] then Some (''   '' @ concat (drop_trailing cl3)) else None)"
    using assms fl tl by (simp_all add: next_line_def Let_def)
  note s1 = drop_leading_weight[of started chunks]
  have s2: "(cs2 = drop_leading started chunks \<and> cl = []) \<or> weight cs2 < weight (drop_leading started chunks)"
    using fill_line_weight[OF fl] by auto
  note s3 = too_long_weight[OF tl]
  show ?thesis
  proof (cases "weight cs3 < weight chunks")
    case True
    then show ?thesis by (simp add: res)
  next
    case False
    with s1 s2 s3 have eq: "drop_leading started chunks = chunks" "cs2 = chunks" "cl = []" "cs3 = cs2"
      "cl3 = cl \<or> cl3 = cl @ [[]]"
      by auto
    then have "drop_trailing cl3 = []" by (auto simp: drop_trailing_def blank_Nil)
    with eq show ?thesis by (simp add: res)
  qed
qed

function wrap_chunks :: "int \<Rightarrow> string list \<Rightarrow> string list \<Rightarrow> halt + string list" where
  "wrap_chunks self_width chunks lines =
     (if chunks = [] then Inr lines
      else (case next_line self_width (lines \<noteq> []) chunks of
              (l, chunks') \<Rightarrow>
                (let lines' = (case l of None \<Rightarrow> lines | Some s \<Rightarrow> lines @ [s])
                 in if chunks' = chunks \<and> lines' = lines then Inl Hangs
                    else wrap_chunks self_width chunks' lines')))"
  by pat_completeness auto
termination
  apply (relation "measure (\<lambda>(w, chunks, lines). weight chunks)")
   apply simp
  apply (auto split: option.splits dest!: next_line_weight[OF sym])
  done

text \<open>\<open>TextWrapper.wrap\<close>; a width that is not positive raises \<open>ValueError\<close>.\<close>

definition wrap :: "int \<Rightarrow> string \<Rightarrow> halt + string list" where
  "wrap self_width text =
     (let text = munge_whitespace text;
          chunks = split_chunks text
      in if self_width \<le> 0 then Inl (Raised ValueError)
         else wrap_chunks self_width chunks [])"

section \<open>JSON values and the outside world\<close>

text \<open>
  A decoded JSON value. An object is an association list in which a key's value is its
  first entry. Numbers are kept abstract (\<open>'n\<close>): the program only prints them.
\<close>

datatype 'n json =
    JNull
  | JBool bool
  | JNum 'n
  | JStr string
  | JList "'n json list"
  | JObj "(string \<times> 'n json) list"

text \<open>
  What \<open>requests.get(url)\<close> can give: a \<open>ConnectionError\<close>, another
  \<open>RequestException\<close> (a timeout, too many redirects), or a response with its status
  code, the text of the \<open>HTTPError\<close> that \<open>raise_for_status\<close> builds for it, and its
  body decoded by \<open>r.json()\<close> (\<open>None\<close> when the body is not JSON).
\<close>

datatype 'n reply =
    ConnectionError string
  | RequestException string
  | Response nat string "'n json option"

text \<open>
  The library behaviour the program relies on and the theory leaves open: the server
  behind \<open>requests.get\<close>, \<open>str()\<close> of a value that is not text (a number, a
  boolean, \<open>None\<close>, a list, a dict) and \<open>json.dumps(j, sort_keys=True, indent=2)\<close>.
\<close>

record 'n world =
  http_get :: "string \<Rightarrow> 'n reply"
  str_of :: "'n json \<Rightarrow> string"
  json_dumps :: "'n json \<Rightarrow> string"

text \<open>\<open>d[k]\<close>: a missing key raises \<open>KeyError\<close>, a value that is no dict \<open>TypeError\<close>.\<close>

fun getitem :: "'n json \<Rightarrow> string \<Rightarrow> exn + 'n json" where
  "getitem (JObj d) k = (case map_of d k of None \<Rightarrow> Inl (KeyError k) | Some v \<Rightarrow> Inr v)"
| "getitem _ k = Inl TypeError"

text \<open>\<open>d.has_key(k)\<close>: only a dict has the method.\<close>

fun has_key :: "'n json \<Rightarrow> string \<Rightarrow> exn + bool" where
  "has_key (JObj d) k = Inr (map_of d k \<noteq> None)"
| "has_key _ k = Inl AttributeError"

text \<open>
  \<open>'{0}'.format(v)\<close> with a byte-string template: a text value is encoded with the
  ASCII codec, which fails on any other character; any other value is printed by
  \<open>str()\<close>.
\<close>

fun format_value :: "'n world \<Rightarrow> 'n json \<Rightarrow> exn + string" where
  "format_value W (JStr s) = (if is_ascii s then Inr s else Inl UnicodeEncodeError)"
| "format_value W v = Inr (str_of W v)"

section \<open>\<open>RedHatSecDataApiClient\<close>\<close>

definition apiurl :: string where
  "apiurl = ''https://access.redhat.com/labs/securitydataapi''"

definition cve_url :: "string \<Rightarrow> string" where
  "cve_url cve = apiurl @ ''/cve/'' @ cve @ ''.json''"

text \<open>
  The outcome of \<open>get_cve\<close>, that is of \<open>__get\<close>: \<open>requests.get\<close>, then
  \<open>raise_for_status\<close> (an \<open>HTTPError\<close> for every status from 400 to 599), then
  \<open>r.json()\<close>.
\<close>

datatype 'n fetched =
    Fetched "'n json"
  | FailedConnection string
  | FailedHTTP string
  | FailedRequest string
  | FailedDecode

definition get_cve :: "'n world \<Rightarrow> string \<Rightarrow> 'n fetched" where
  "get_cve W cve =
     (case http_get W (cve_url cve) of
        ConnectionError m \<Rightarrow> FailedConnection m
      | RequestException m \<Rightarrow> FailedRequest m
      | Response status m body \<Rightarrow>
          if 400 \<le> status \<and> status < 600 then FailedHTTP m
          else (case body of None \<Rightarrow> FailedDecode | Some j \<Rightarrow> Fetched j))"

section \<open>\<open>RHSecApiParse\<close>\<close>

text \<open>The fields of the object that stay fixed after \<open>__init__\<close>; \<open>w = 0\<close> stands for "no wrapper".\<close>

record settings =
  desiredFields :: "string list"
  printUrls :: bool
  rawOutput :: bool
  pastebin :: bool
  onlyCount :: bool
  verbose :: bool
  w :: int

text \<open>
  \<open>__init__\<close>; \<open>termw\<close> is the terminal width that \<open>get_terminal_width\<close> reads,
  used when \<open>wrapWidth\<close> is 1.
\<close>

definition init :: "nat \<Rightarrow> string \<Rightarrow> bool \<Rightarrow> bool \<Rightarrow> bool \<Rightarrow> bool \<Rightarrow> bool \<Rightarrow> int \<Rightarrow> settings" where
  "init termw fieldspec printUrls' rawOutput' pastebin' onlyCount' verbose' wrapWidth =
     \<lparr>desiredFields = (if fieldspec \<noteq> [] then split_comma fieldspec else []),
      printUrls = printUrls', rawOutput = rawOutput', pastebin = pastebin',
      onlyCount = onlyCount', verbose = verbose',
      w = (if wrapWidth = 1 then int termw - 2 else wrapWidth)\<rparr>"

text \<open>What the run has written and counted so far; \<open>paste\<close> is \<open>self.output\<close>.\<close>

record run =
  stdout :: string
  paste :: string
  stderr :: string
  cveCount :: nat

text \<open>\<open>self.Print\<close>: \<open>paste_printer\<close> when \<open>pastebin\<close> is set, else standard output.\<close>

definition Print :: "settings \<Rightarrow> string \<Rightarrow> run \<Rightarrow> run" where
  "Print cfg text st =
     (if pastebin cfg then st\<lparr>paste := paste st @ text\<rparr> else st\<lparr>stdout := stdout st @ text\<rparr>)"

text \<open>\<open>print(text, file=stderr)\<close>.\<close>

definition eprint :: "string \<Rightarrow> run \<Rightarrow> run" where
  "eprint text st = st\<lparr>stderr := stderr st @ text @ [CHR 0x0A]\<rparr>"

definition prog :: string where
  "prog = ''rhsecapi''"

text \<open>\<open>_check_field\<close>: the membership test comes first and short-circuits.\<close>

definition check_field :: "settings \<Rightarrow> string \<Rightarrow> 'n json \<Rightarrow> exn + bool" where
  "check_field cfg field jsoninput =
     (if field \<in> set (desiredFields cfg) then has_key jsoninput field else Inr False)"

text \<open>\<open>_stripjoin\<close>.\<close>

fun join_stripped :: "string \<Rightarrow> 'n json list \<Rightarrow> exn + string" where
  "join_stripped text [] = Inr text"
| "join_stripped text (JStr i # rest) = join_stripped (text @ strip i @ ''  '') rest"
| "join_stripped text (_ # rest) = Inl AttributeError"

fun stripped :: "'n json \<Rightarrow> exn + string" where
  "stripped (JList xs) = join_stripped [] xs"
| "stripped (JStr s) = Inr (strip s)"
| "stripped _ = Inl AttributeError"

definition stripjoin :: "int \<Rightarrow> 'n json \<Rightarrow> halt + string" where
  "stripjoin wd input =
     (case stripped input of
        Inl e \<Rightarrow> Inl (Raised e)
      | Inr text \<Rightarrow>
          (let text = sub_newlines text
           in if wd \<noteq> 0
              then (case wrap wd text of
                      Inl h \<Rightarrow> Inl h
                    | Inr lines \<Rightarrow> Inr ([CHR 0x0A] @ join [CHR 0x0A] lines))
              else Inr text))"

section \<open>Rendering one record (\<open>print_cve\<close>)\<close>

text \<open>
  What a stretch of code prints through \<open>self.Print\<close> and how it stopped, if it did
  not run through: text already printed stays printed when an exception follows.
\<close>

type_synonym piece = "string \<times> halt option"

definition emit :: "string \<Rightarrow> piece" where
  "emit text = (text, None)"

definition seq :: "piece \<Rightarrow> piece \<Rightarrow> piece" where
  "seq p q = (case snd p of None \<Rightarrow> (fst p @ fst q, snd q) | Some h \<Rightarrow> p)"

definition need :: "exn + 'a \<Rightarrow> ('a \<Rightarrow> piece) \<Rightarrow> piece" where
  "need r f = (case r of Inl e \<Rightarrow> ([], Some (Raised e)) | Inr v \<Rightarrow> f v)"

definition need_text :: "halt + 'a \<Rightarrow> ('a \<Rightarrow> piece) \<Rightarrow> piece" where
  "need_text r f = (case r of Inl h \<Rightarrow> ([], Some h) | Inr v \<Rightarrow> f v)"

fun in_order :: "piece list \<Rightarrow> piece" where
  "in_order [] = emit []"
| "in_order (p # ps) = seq p (in_order ps)"

text \<open>The branch guarded by \<open>if self._check_field(field, j):\<close>.\<close>

definition when_field :: "settings \<Rightarrow> string \<Rightarrow> 'n json \<Rightarrow> piece \<Rightarrow> piece" where
  "when_field cfg field j body = need (check_field cfg field j) (\<lambda>b. if b then body else emit [])"

definition show_threat_severity :: "'n world \<Rightarrow> settings \<Rightarrow> 'n json \<Rightarrow> piece" where
  "show_threat_severity W cfg j =
     when_field cfg ''threat_severity'' j
       (let url = (if printUrls cfg
                   then '' (https://access.redhat.com/security/updates/classification)'' else [])
        in need (getitem j ''threat_severity'') (\<lambda>v.
           need (format_value W v) (\<lambda>s.
           emit (''  IMPACT:  '' @ s @ url @ ''\<newline>''))))"

definition show_public_date :: "'n world \<Rightarrow> settings \<Rightarrow> 'n json \<Rightarrow> piece" where
  "show_public_date W cfg j =
     when_field cfg ''public_date'' j
       (need (getitem j ''public_date'') (\<lambda>v.
        need (format_value W v) (\<lambda>s.
        emit (''  PUBLIC_DATE:  '' @ s @ ''\<newline>''))))"

text \<open>\<open>j['cwe'].lstrip("CWE-")\<close>: only text has the method; the result is text again.\<close>

fun lstrip_value :: "string \<Rightarrow> 'n json \<Rightarrow> exn + 'n json" where
  "lstrip_value chars (JStr s) = Inr (JStr (lstrip chars s))"
| "lstrip_value chars _ = Inl AttributeError"

definition cwe_url :: "'n world \<Rightarrow> 'n json \<Rightarrow> exn + string" where
  "cwe_url W v =
     (case lstrip_value ''CWE-'' v of
        Inl e \<Rightarrow> Inl e
      | Inr t \<Rightarrow>
          (case format_value W t of
             Inl e \<Rightarrow> Inl e
           | Inr s \<Rightarrow> Inr ('' (http://cwe.mitre.org/data/definitions/'' @ s @ ''.html)'')))"

definition show_cwe :: "'n world \<Rightarrow> settings \<Rightarrow> 'n json \<Rightarrow> piece" where
  "show_cwe W cfg j =
     when_field cfg ''cwe'' j
       (need (if printUrls cfg
              then (case getitem j ''cwe'' of Inl e \<Rightarrow> Inl e | Inr v \<Rightarrow> cwe_url W v)
              else Inr []) (\<lambda>url.
        need (getitem j ''cwe'') (\<lambda>v.
        need (format_value W v) (\<lambda>s.
        emit (''  CWE:  '' @ s @ url @ ''\<newline>'')))))"

text \<open>
  The two score blocks. With URLs the vector is formatted into the calculator's address
  first; without, it is formatted last, as the second field of the line.
\<close>

definition show_score ::
  "'n world \<Rightarrow> settings \<Rightarrow> 'n json \<Rightarrow> string \<Rightarrow> string \<Rightarrow> string \<Rightarrow> string \<Rightarrow> string \<Rightarrow> string \<Rightarrow> piece" where
  "show_score W cfg j field vector_key score_key label url_head url_tail =
     when_field cfg field j
       (need (getitem j field) (\<lambda>obj.
        need (getitem obj vector_key) (\<lambda>vector.
        if printUrls cfg
        then need (format_value W vector) (\<lambda>vs.
             need (getitem j field) (\<lambda>obj'.
             need (getitem obj' score_key) (\<lambda>score.
             need (format_value W score) (\<lambda>ss.
             emit (label @ ss @ '' ['' @ url_head @ vs @ url_tail @ '']\<newline>'')))))
        else need (getitem j field) (\<lambda>obj'.
             need (getitem obj' score_key) (\<lambda>score.
             need (format_value W score) (\<lambda>ss.
             need (format_value W vector) (\<lambda>vs.
             emit (label @ ss @ '' ['' @ vs @ '']\<newline>'')))))))) "

definition show_cvss :: "'n world \<Rightarrow> settings \<Rightarrow> 'n json \<Rightarrow> piece" where
  "show_cvss W cfg j =
     show_score W cfg j ''cvss'' ''cvss_scoring_vector'' ''cvss_base_score'' ''  CVSS:  ''
       ''http://nvd.nist.gov/cvss.cfm?version=2&vector=('' '')''"

definition show_cvss3 :: "'n world \<Rightarrow> settings \<Rightarrow> 'n json \<Rightarrow> piece" where
  "show_cvss3 W cfg j =
     show_score W cfg j ''cvss3'' ''cvss3_scoring_vector'' ''cvss3_base_score'' ''  CVSS3:  ''
       ''https://www.first.org/cvss/calculator/3.0#'' []"

text \<open>The \<open>bugzilla\<close> block tests the selection and the record separately.\<close>

definition show_bugzilla :: "'n world \<Rightarrow> settings \<Rightarrow> 'n json \<Rightarrow> piece" where
  "show_bugzilla W cfg j =
     (if ''bugzilla'' \<in> set (desiredFields cfg)
      then need (has_key j ''bugzilla'') (\<lambda>present.
           if present
           then need (getitem j ''bugzilla'') (\<lambda>obj.
                need (getitem obj (if printUrls cfg then ''url'' else ''id'')) (\<lambda>bug.
                need (format_value W bug) (\<lambda>s.
                emit (''  BUGZILLA:  '' @ s @ ''\<newline>''))))
           else seq (emit ''  BUGZILLA:  No Bugzilla data\<newline>'')
                    (emit ''   Too new or too old? See: https://bugzilla.redhat.com/show_bug.cgi?id=CVE_legacy\<newline>''))
      else emit [])"

definition show_text :: "settings \<Rightarrow> 'n json \<Rightarrow> string \<Rightarrow> string \<Rightarrow> piece" where
  "show_text cfg j field label =
     when_field cfg field j
       (need (getitem j field) (\<lambda>v.
        need_text (stripjoin (w cfg) v) (\<lambda>s.
        emit (label @ s @ ''\<newline>''))))"

text \<open>
  \<open>for release in affected_release\<close>: a dict was wrapped in a list before; a list gives
  its elements, text gives its characters, anything else is not iterable.
\<close>

fun entries :: "'n json \<Rightarrow> exn + 'n json list" where
  "entries (JObj d) = Inr [JObj d]"
| "entries (JList xs) = Inr xs"
| "entries (JStr s) = Inr (map (\<lambda>c. JStr [c]) s)"
| "entries _ = Inl TypeError"

definition release_line :: "'n world \<Rightarrow> settings \<Rightarrow> 'n json \<Rightarrow> piece" where
  "release_line W cfg release =
     need (has_key release ''package'') (\<lambda>present.
     need (if present
           then (case getitem release ''package'' of
                   Inl e \<Rightarrow> Inl e
                 | Inr v \<Rightarrow> (case format_value W v of Inl e \<Rightarrow> Inl e | Inr s \<Rightarrow> Inr ('' ['' @ s @ '']'')))
           else Inr []) (\<lambda>package.
     need (getitem release ''advisory'') (\<lambda>advisory.
     if printUrls cfg
     then need (format_value W advisory) (\<lambda>a.
          need (getitem release ''product_name'') (\<lambda>product.
          need (format_value W product) (\<lambda>p.
          emit (''   '' @ p @ package @ '': '' @ ''https://access.redhat.com/errata/'' @ a @ ''\<newline>''))))
     else need (getitem release ''product_name'') (\<lambda>product.
          need (format_value W product) (\<lambda>p.
          need (format_value W advisory) (\<lambda>a.
          emit (''   '' @ p @ package @ '': '' @ a @ ''\<newline>'')))))))"

definition state_line :: "'n world \<Rightarrow> settings \<Rightarrow> 'n json \<Rightarrow> piece" where
  "state_line W cfg state =
     need (has_key state ''package_name'') (\<lambda>present.
     need (if present
           then (case getitem state ''package_name'' of
                   Inl e \<Rightarrow> Inl e
                 | Inr v \<Rightarrow> (case format_value W v of Inl e \<Rightarrow> Inl e | Inr s \<Rightarrow> Inr ('' ['' @ s @ '']'')))
           else Inr []) (\<lambda>package_name.
     need (getitem state ''product_name'') (\<lambda>product.
     need (getitem state ''fix_state'') (\<lambda>fix.
     need (format_value W fix) (\<lambda>f.
     need (format_value W product) (\<lambda>p.
     emit (''   '' @ f @ '': '' @ p @ package_name @ ''\<newline>'')))))))"

definition show_affected_release :: "'n world \<Rightarrow> settings \<Rightarrow> 'n json \<Rightarrow> piece" where
  "show_affected_release W cfg j =
     when_field cfg ''affected_release'' j
       (seq (emit ''  AFFECTED_RELEASE (ERRATA)\<newline>'')
          (need (getitem j ''affected_release'') (\<lambda>affected_release.
           need (entries affected_release) (\<lambda>releases.
           in_order (map (release_line W cfg) releases)))))"

definition show_package_state :: "'n world \<Rightarrow> settings \<Rightarrow> 'n json \<Rightarrow> piece" where
  "show_package_state W cfg j =
     when_field cfg ''package_state'' j
       (seq (emit ''  PACKAGE_STATE\<newline>'')
          (need (getitem j ''package_state'') (\<lambda>package_state.
           need (entries package_state) (\<lambda>states.
           in_order (map (state_line W cfg) states)))))"

text \<open>
  \<open>cve != j['name']\<close>: \<open>cve\<close> is a byte string of the command line, the name is
  decoded text; the two are equal only when they are the same ASCII text.
\<close>

fun differs :: "string \<Rightarrow> 'n json \<Rightarrow> bool" where
  "differs cve (JStr s) = (\<not> (is_ascii cve \<and> cve = s))"
| "differs cve _ = True"

text \<open>The part of \<open>print_cve\<close> after the \<open>--count\<close> and \<open>--json\<close> exits.\<close>

definition header :: "'n world \<Rightarrow> settings \<Rightarrow> string \<Rightarrow> 'n json \<Rightarrow> piece" where
  "header W cfg cve j =
     need (getitem j ''name'') (\<lambda>nm.
     need (if differs cve nm
           then (case format_value W nm of Inl e \<Rightarrow> Inl e | Inr s \<Rightarrow> Inr ('' ['' @ s @ '']''))
           else Inr []) (\<lambda>name.
     let url = (if printUrls cfg then '' (https://access.redhat.com/security/cve/'' @ cve @ '')'' else [])
     in emit (cve @ name @ url @ ''\<newline>'')))"

definition fielded :: "'n world \<Rightarrow> settings \<Rightarrow> string \<Rightarrow> 'n json \<Rightarrow> piece" where
  "fielded W cfg cve j =
     seq (header W cfg cve j)
       (if desiredFields cfg = [] then emit []
        else in_order
          [show_threat_severity W cfg j,
           show_public_date W cfg j,
           show_cwe W cfg j,
           show_cvss W cfg j,
           show_cvss3 W cfg j,
           show_bugzilla W cfg j,
           show_text cfg j ''acknowledgement'' ''  ACKNOWLEDGEMENT:  '',
           show_text cfg j ''details'' ''  DETAILS:  '',
           show_text cfg j ''statement'' ''  STATEMENT:  '',
           show_affected_release W cfg j,
           show_package_state W cfg j,
           emit ''\<newline>''])"

definition print_cve :: "'n world \<Rightarrow> settings \<Rightarrow> string \<Rightarrow> run \<Rightarrow> halt option \<times> run" where
  "print_cve W cfg cve st =
     (let st = (if verbose cfg
                then eprint (''Getting '' @ [CHR 0x27] @ cve_url cve @ [CHR 0x27] @ '' ...'') st
                else st)
      in (case get_cve W cve of
            FailedConnection e \<Rightarrow> (Some (Exit 1), eprint (prog @ '': '' @ e) st)
          | FailedHTTP e \<Rightarrow>
              (let st = eprint (prog @ '': '' @ e) st;
                   st = (if \<not> onlyCount cfg
                         then (let st = Print cfg (cve @ ''\<newline> Not present in Red Hat CVE database\<newline>'') st
                               in if startswith cve ''CVE-''
                                  then Print cfg ('' Try https://cve.mitre.org/cgi-bin/cvename.cgi?name='' @ cve @ ''\<newline>\<newline>'') st
                                  else st)
                         else st)
               in (None, st))
          | FailedRequest e \<Rightarrow> (Some (Exit 1), eprint (prog @ '': '' @ e) st)
          | FailedDecode \<Rightarrow> (Some (Raised ValueError), st)
          | Fetched j \<Rightarrow>
              if onlyCount cfg then (None, st\<lparr>cveCount := cveCount st + 1\<rparr>)
              else if rawOutput cfg then (None, Print cfg (json_dumps W j) st)
              else (case fielded W cfg cve j of (text, h) \<Rightarrow> (h, Print cfg text st))))"

section \<open>The loop of \<open>main\<close> over the identifiers\<close>

fun print_cves :: "'n world \<Rightarrow> settings \<Rightarrow> string list \<Rightarrow> run \<Rightarrow> halt option \<times> run" where
  "print_cves W cfg [] st = (None, st)"
| "print_cves W cfg (cve # cves) st =
     (case print_cve W cfg cve st of
        (None, st') \<Rightarrow> print_cves W cfg cves st'
      | (Some h, st') \<Rightarrow> (Some h, st'))"

text \<open>
  \<open>if opts.cves:\<close> and what it guards, lines 530 to 535 of the source; \<open>opts.count\<close>
  is the \<open>onlyCount\<close> the object was built with.
\<close>

definition main_cves :: "'n world \<Rightarrow> settings \<Rightarrow> string list \<Rightarrow> run \<Rightarrow> halt option \<times> run" where
  "main_cves W cfg cves st =
     (if cves = [] then (None, st)
      else (case print_cves W cfg cves st of
              (Some h, st') \<Rightarrow> (Some h, st')
            | (None, st') \<Rightarrow>
                if onlyCount cfg
                then (None,
                      eprint (''Invalid CVE queries: '' @ str_int (int (length cves) - int (cveCount st')) @
                              '' of '' @ str_nat (length cves))
                     (eprint (''Valid CVE results found: '' @ str_nat (cveCount st') @
                              '' of '' @ str_nat (length cves)) st'))
                else (None, st')))"

section \<open>Notions of the statements and example inputs\<close>

definition start :: run where
  "start = \<lparr>stdout = [], paste = [], stderr = [], cveCount = 0\<rparr>"

text \<open>
  A server given by a table from identifiers to replies; any other address gets a 404.
  Numbers print in decimal.
\<close>

definition serve :: "(string \<times> nat reply) list \<Rightarrow> nat world" where
  "serve table =
     \<lparr>http_get = (\<lambda>url. case map_of (map (\<lambda>(cve, r). (cve_url cve, r)) table) url of
                          Some r \<Rightarrow> r
                        | None \<Rightarrow> Response 404 ''404 Client Error: Not Found'' None),
      str_of = (\<lambda>v. case v of JNum n \<Rightarrow> str_nat n | _ \<Rightarrow> []),
      json_dumps = (\<lambda>v. [])\<rparr>"

text \<open>The primary report: the paste buffer when \<open>pastebin\<close> is set, else standard output.\<close>

definition report :: "settings \<Rightarrow> run \<Rightarrow> string" where
  "report cfg st = (if pastebin cfg then paste st else stdout st)"

text \<open>The block that stands for an identifier the server does not know.\<close>

definition fallback_block :: "string \<Rightarrow> string" where
  "fallback_block cve =
     cve @ ''\<newline> Not present in Red Hat CVE database\<newline>'' @
     (if startswith cve ''CVE-''
      then '' Try https://cve.mitre.org/cgi-bin/cvename.cgi?name='' @ cve @ ''\<newline>\<newline>''
      else [])"

text \<open>The specification's reading of the CWE link: the literal prefix is removed.\<close>

definition remove_prefix :: "string \<Rightarrow> string \<Rightarrow> string" where
  "remove_prefix p s = (if startswith s p then drop (length p) s else s)"

definition two_failures :: "nat world" where
  "two_failures =
     serve [(''CVE-2016-0001'', Response 500 ''500 Server Error: Internal Server Error'' None),
            (''CVE-2016-0002'', ConnectionError ''Connection refused''),
            (''CVE-2016-5387'', Response 200 [] (Some (JObj [(''name'', JStr ''CVE-2016-5387'')])))]"

definition plain :: settings where
  "plain = init 80 [] False False False False False 0"

text \<open>Whether the fetch of an identifier succeeds, and what the fetch writes to standard error.\<close>

definition is_found :: "'n world \<Rightarrow> string \<Rightarrow> bool" where
  "is_found W cve = (case get_cve W cve of Fetched j \<Rightarrow> True | _ \<Rightarrow> False)"

definition is_not_found :: "'n world \<Rightarrow> string \<Rightarrow> bool" where
  "is_not_found W cve = (case get_cve W cve of FailedHTTP e \<Rightarrow> True | _ \<Rightarrow> False)"

definition fetch_log :: "'n world \<Rightarrow> settings \<Rightarrow> string \<Rightarrow> string" where
  "fetch_log W cfg cve =
     (if verbose cfg then ''Getting '' @ [CHR 0x27] @ cve_url cve @ [CHR 0x27] @ '' ...\<newline>'' else []) @
     (case get_cve W cve of FailedHTTP e \<Rightarrow> prog @ '': '' @ e @ ''\<newline>'' | _ \<Rightarrow> [])"

definition found_count :: "'n world \<Rightarrow> string list \<Rightarrow> nat" where
  "found_count W cves = length (filter (is_found W) cves)"

definition three_ids :: "nat world" where
  "three_ids =
     serve [(''CVE-2016-5387'', Response 200 [] (Some (JObj [(''name'', JStr ''CVE-2016-5387'')]))),
            (''CVE-2016-5386'', Response 200 [] (Some (JObj [(''name'', JStr ''CVE-2016-5386'')])))]"

definition counting :: settings where
  "counting = init 80 ''threat_severity,bugzilla'' False False False True False 0"

text \<open>The ten fields whose block is guarded by \<open>_check_field\<close>.\<close>

definition checked_fields :: "string list" where
  "checked_fields =
     [''threat_severity'', ''public_date'', ''cwe'', ''cvss'', ''cvss3'', ''acknowledgement'',
      ''details'', ''statement'', ''affected_release'', ''package_state'']"

definition one_release :: "(string \<times> nat json) list" where
  "one_release =
     [(''product_name'', JStr ''Red Hat Enterprise Linux 7''),
      (''package'', JStr ''httpd-2.4.6-40.el7_2.4''),
      (''advisory'', JStr ''RHSA-2016:1422'')]"

text \<open>A record with one release as a bare mapping, and the same record with the one-element list.\<close>

definition bare_release :: "nat json" where
  "bare_release =
     JObj [(''name'', JStr ''CVE-2016-5387''), (''affected_release'', JObj one_release)]"

definition listed_release :: "nat json" where
  "listed_release =
     JObj [(''affected_release'', JList [JObj one_release]), (''name'', JStr ''CVE-2016-5387'')]"

text \<open>Text that is empty or ends with a newline, and a piece that prints such text when it runs through.\<close>

definition nl_ended :: "string \<Rightarrow> bool" where
  "nl_ended t \<longleftrightarrow> t = [] \<or> last t = CHR 0x0A"

definition tidy :: "piece \<Rightarrow> bool" where
  "tidy p \<longleftrightarrow> (snd p = None \<longrightarrow> nl_ended (fst p))"

text \<open>Text that ends with a blank line: its last two characters are newlines.\<close>

definition blank_terminated :: "string \<Rightarrow> bool" where
  "blank_terminated t \<longleftrightarrow> 2 \<le> length t \<and> drop (length t - 2) t = ''\<newline>\<newline>''"

text \<open>The blocks between the identifier line and the closing newline.\<close>

definition field_blocks :: "'n world \<Rightarrow> settings \<Rightarrow> 'n json \<Rightarrow> piece list" where
  "field_blocks W cfg j =
     [show_threat_severity W cfg j, show_public_date W cfg j, show_cwe W cfg j,
      show_cvss W cfg j, show_cvss3 W cfg j, show_bugzilla W cfg j,
      show_text cfg j ''acknowledgement'' ''  ACKNOWLEDGEMENT:  '',
      show_text cfg j ''details'' ''  DETAILS:  '',
      show_text cfg j ''statement'' ''  STATEMENT:  '',
      show_affected_release W cfg j, show_package_state W cfg j]"

definition severity_and_bugzilla :: settings where
  "severity_and_bugzilla = init 80 ''threat_severity,bugzilla'' False False False False False 0"




text \<open>Text without leading and trailing whitespace, and text whose only whitespace is the space.\<close>

definition trimmed :: "string \<Rightarrow> bool" where
  "trimmed t \<longleftrightarrow> t = [] \<or> (\<not> is_space (hd t) \<and> \<not> is_space (last t))"

definition spaced :: "string \<Rightarrow> bool" where
  "spaced t \<longleftrightarrow> (\<forall>c \<in> set t. is_space c \<longrightarrow> c = CHR '' '')"

text \<open>The display string of a normalized text that fits on one line.\<close>

definition one_line :: "string \<Rightarrow> string" where
  "one_line t = ''\<newline>'' @ join ''\<newline>'' (if t = [] then [] else [''   '' @ t])"

text \<open>Text in which no two hyphens follow each other.\<close>

fun no_dash :: "string \<Rightarrow> bool" where
  "no_dash (a # b # r) = (\<not> (a = CHR ''-'' \<and> b = CHR ''-'') \<and> no_dash (b # r))"
| "no_dash [a] = True"
| "no_dash [] = True"

text \<open>
  A normalized text that suits a width: it has no two hyphens in a row, it does not begin
  with whitespace, none of its chunks other than blanks is longer than the width less the
  3-character indent, and it has at most five blanks in a row.
\<close>

definition fitting :: "int \<Rightarrow> string \<Rightarrow> bool" where
  "fitting wd t \<longleftrightarrow>
     no_dash t \<and> (t = [] \<or> \<not> is_space (hd t)) \<and>
     (\<forall>c \<in> set (split_chunks t). if blank c then length c \<le> 5 else int (length c) \<le> wd - 3)"

text \<open>A chunk without whitespace, and a chunk of whitespace only.\<close>

definition wordy :: "string \<Rightarrow> bool" where
  "wordy c \<longleftrightarrow> c \<noteq> [] \<and> (\<forall>x \<in> set c. \<not> is_space x)"

definition gap :: "string \<Rightarrow> bool" where
  "gap c \<longleftrightarrow> c \<noteq> [] \<and> (\<forall>x \<in> set c. is_space x)"

text \<open>Chunks as \<open>_split\<close> gives them: words and gaps, and no two gaps in a row.\<close>

fun chunky :: "string list \<Rightarrow> bool" where
  "chunky [] = True"
| "chunky [c] = (wordy c \<or> gap c)"
| "chunky (c # d # cs) = ((wordy c \<or> gap c \<and> wordy d) \<and> chunky (d # cs))"

text \<open>
  The rounds of \<open>_wrap_chunks\<close> when no word is longer than a line: the chunks that
  each line is made of.
\<close>

function lines_of :: "int \<Rightarrow> bool \<Rightarrow> string list \<Rightarrow> string list list" where
  "lines_of width started chunks =
     (if chunks = [] then []
      else (case fill_line width [] 0 (drop_leading started chunks) of
              (cur_line, cur_len, rest) \<Rightarrow>
                if rest = chunks then []
                else (if drop_trailing cur_line \<noteq> [] then [drop_trailing cur_line] else []) @
                     lines_of width (started \<or> drop_trailing cur_line \<noteq> []) rest))"
  by pat_completeness auto

lemma fill_drop_weight:
  assumes "(cur_line, cur_len, rest) = fill_line width [] 0 (drop_leading started chunks)"
    and "rest \<noteq> chunks"
  shows "weight rest < weight chunks"
  using fill_line_weight[OF assms(1)[symmetric]] drop_leading_weight[of started chunks] assms(2)
  by auto

termination lines_of
  apply (relation "measure (\<lambda>(width, started, chunks). weight chunks)")
   apply simp
  apply (auto dest: fill_drop_weight)
  done

text \<open>The chunks of the lines joined by five blanks, as the second pass sees them.\<close>

fun glue :: "string list list \<Rightarrow> string list" where
  "glue [] = []"
| "glue [l] = l"
| "glue (l # l' # ls) = l @ ''     '' # glue (l' # ls)"

text \<open>
  A line of chunks: it starts and ends with a word and fits. Chunks that one round can
  take: every word fits on a line, and the first chunk is a word unless a line was
  written before.
\<close>

definition shape :: "int \<Rightarrow> string list \<Rightarrow> bool" where
  "shape wid l \<longleftrightarrow>
     l \<noteq> [] \<and> wordy (hd l) \<and> wordy (last l) \<and> chunky l \<and> int (length (concat l)) \<le> wid"

definition valid :: "int \<Rightarrow> bool \<Rightarrow> string list \<Rightarrow> bool" where
  "valid wid st cs \<longleftrightarrow>
     chunky cs \<and> (\<forall>c \<in> set cs. wordy c \<longrightarrow> int (length c) \<le> wid) \<and>
     (st \<or> cs = [] \<or> wordy (hd cs))"

text \<open>
  Lines that leave no room: a line, five blanks and the first chunk of the next line do
  not fit together.
\<close>

fun tight :: "int \<Rightarrow> string list list \<Rightarrow> bool" where
  "tight wid [] = True"
| "tight wid [l] = True"
| "tight wid (l # l' # ls) =
     (wid < int (length (concat l)) + 5 + int (length (hd l')) \<and> tight wid (l' # ls))"

text \<open>The lookahead of the hyphen alternative: \<^verbatim>\<open>\w+[^0-9\W]\<close> matches a prefix of the word characters.\<close>

definition good :: "string \<Rightarrow> bool" where
  "good W \<longleftrightarrow> 2 \<le> length W \<and> list_ex (\<lambda>c. \<not> is_digit c) (tl W)"

section \<open>The query builder\<close>

lemma add_criterion_fragment: "add_criterion name v q = q @ fragment (name, v)"
  by (cases v) auto

lemma add_rawquery_fragment: "add_rawquery v q = q @ raw_fragment v"
  by (cases v) auto

lemma searchQuery_concat:
  "searchQuery c = concat (map fragment (named_criteria c)) @ raw_fragment (rawquery c)"
  by (simp add: searchQuery_def named_criteria_def add_criterion_fragment add_rawquery_fragment)

lemma fragment_falsy: "\<not> truthy (snd p) \<Longrightarrow> fragment p = []"
  by (cases p; cases "snd p") auto

lemma concat_fragments_filter:
  "concat (map fragment ps) = concat (map fragment (filter (truthy \<circ> snd) ps))"
  by (induction ps) (auto simp: fragment_falsy)

lemma raw_fragment_falsy: "\<not> truthy v \<Longrightarrow> raw_fragment v = []"
  by (cases v) auto

text \<open>
  C7. The built fragment is the concatenation of \<open>&name=value\<close> over the non-empty
  criteria in the order before, after, bug, advisory, severity, package, cwe, cvss_score,
  cvss3_score, followed by the raw fragment (appended as it is after an \<open>&\<close>); with
  all criteria empty it is empty; with exactly one non-empty criterion \<open>f=v\<close> it is
  \<open>&f=v\<close>.
\<close>

theorem searchQuery_fragments:
  "searchQuery c = concat (map fragment (named_criteria c)) @ raw_fragment (rawquery c) \<and>
   (filter (truthy \<circ> snd) (named_criteria c) = [] \<and> \<not> truthy (rawquery c) \<longrightarrow> searchQuery c = []) \<and>
   (filter (truthy \<circ> snd) (named_criteria c) = [(f, Some v)] \<and> \<not> truthy (rawquery c)
      \<longrightarrow> searchQuery c = ''&'' @ f @ ''='' @ v) \<and>
   (filter (truthy \<circ> snd) (named_criteria c) = [] \<and> rawquery c = Some v \<and> v \<noteq> []
      \<longrightarrow> searchQuery c = ''&'' @ v)"
proof (intro conjI impI)
  show "searchQuery c = concat (map fragment (named_criteria c)) @ raw_fragment (rawquery c)"
    by (rule searchQuery_concat)
next
  assume "filter (truthy \<circ> snd) (named_criteria c) = [] \<and> \<not> truthy (rawquery c)"
  then show "searchQuery c = []"
    using concat_fragments_filter[of "named_criteria c"]
    by (simp add: searchQuery_concat raw_fragment_falsy)
next
  assume a: "filter (truthy \<circ> snd) (named_criteria c) = [(f, Some v)] \<and> \<not> truthy (rawquery c)"
  then have "(f, Some v) \<in> set (filter (truthy \<circ> snd) (named_criteria c))" by simp
  then have "v \<noteq> []" by auto
  with a show "searchQuery c = ''&'' @ f @ ''='' @ v"
    using concat_fragments_filter[of "named_criteria c"]
    by (simp add: searchQuery_concat raw_fragment_falsy)
next
  assume "filter (truthy \<circ> snd) (named_criteria c) = [] \<and> rawquery c = Some v \<and> v \<noteq> []"
  then show "searchQuery c = ''&'' @ v"
    using concat_fragments_filter[of "named_criteria c"]
    by (simp add: searchQuery_concat)
qed

theorem searchQuery_fragments_witness:
  "searchQuery (no_criteria\<lparr>severity := Some ''low''\<rparr>) = ''&severity=low'' \<and>
   searchQuery (no_criteria\<lparr>bug := Some []\<rparr>) = [] \<and>
   searchQuery (no_criteria\<lparr>rawquery := Some ''per_page=500''\<rparr>) = ''&per_page=500''"
proof -
  have 1: "filter (truthy \<circ> snd) (named_criteria (no_criteria\<lparr>severity := Some ''low''\<rparr>))
             = [(''severity'', Some ''low'')] \<and> \<not> truthy (rawquery (no_criteria\<lparr>severity := Some ''low''\<rparr>))"
    by (simp add: named_criteria_def no_criteria_def)
  have 2: "filter (truthy \<circ> snd) (named_criteria (no_criteria\<lparr>bug := Some []\<rparr>)) = [] \<and>
           \<not> truthy (rawquery (no_criteria\<lparr>bug := Some []\<rparr>))"
    by (simp add: named_criteria_def no_criteria_def)
  have 3: "filter (truthy \<circ> snd) (named_criteria (no_criteria\<lparr>rawquery := Some ''per_page=500''\<rparr>)) = [] \<and>
           rawquery (no_criteria\<lparr>rawquery := Some ''per_page=500''\<rparr>) = Some ''per_page=500'' \<and>
           ''per_page=500'' \<noteq> []"
    by (simp add: named_criteria_def no_criteria_def)
  from 1 searchQuery_fragments[of "no_criteria\<lparr>severity := Some ''low''\<rparr>" "''severity''" "''low''"]
  have a: "searchQuery (no_criteria\<lparr>severity := Some ''low''\<rparr>) = ''&'' @ ''severity'' @ ''='' @ ''low''"
    by blast
  from 2 searchQuery_fragments[of "no_criteria\<lparr>bug := Some []\<rparr>"]
  have b: "searchQuery (no_criteria\<lparr>bug := Some []\<rparr>) = []"
    by blast
  from 3 searchQuery_fragments[of "no_criteria\<lparr>rawquery := Some ''per_page=500''\<rparr>" _ "''per_page=500''"]
  have c: "searchQuery (no_criteria\<lparr>rawquery := Some ''per_page=500''\<rparr>) = ''&'' @ ''per_page=500''"
    by blast
  from a b c show ?thesis by simp
qed

section \<open>Failures of a fetch\<close>

lemma report_Print [simp]: "report cfg (Print cfg text st) = report cfg st @ text"
  by (simp add: report_def Print_def)

lemma report_eprint [simp]: "report cfg (eprint text st) = report cfg st"
  by (simp add: report_def eprint_def)

lemma cveCount_Print [simp]: "cveCount (Print cfg text st) = cveCount st"
  by (simp add: Print_def)

lemma cveCount_eprint [simp]: "cveCount (eprint text st) = cveCount st"
  by (simp add: eprint_def)

lemma get_cve_status_error:
  "http_get W (cve_url cve) = Response status e body \<Longrightarrow> 400 \<le> status \<Longrightarrow> status < 600 \<Longrightarrow>
     get_cve W cve = FailedHTTP e"
  by (simp add: get_cve_def)

lemma print_cve_FailedHTTP:
  assumes "get_cve W cve = FailedHTTP e"
  shows "fst (print_cve W cfg cve st) = None"
    and "cveCount (snd (print_cve W cfg cve st)) = cveCount st"
    and "report cfg (snd (print_cve W cfg cve st)) =
           report cfg st @ (if onlyCount cfg then [] else fallback_block cve)"
  using assms by (simp_all add: print_cve_def Let_def fallback_block_def)

lemma print_cve_fatal:
  assumes "get_cve W cve = FailedConnection e \<or> get_cve W cve = FailedRequest e"
  shows "fst (print_cve W cfg cve st) = Some (Exit 1)"
    and "cveCount (snd (print_cve W cfg cve st)) = cveCount st"
    and "report cfg (snd (print_cve W cfg cve st)) = report cfg st"
  using assms by (auto simp add: print_cve_def Let_def)

lemma print_cves_stop:
  "fst (print_cve W cfg cve st) = Some h \<Longrightarrow> print_cves W cfg (cve # rest) st = print_cve W cfg cve st"
  by (cases "print_cve W cfg cve st") auto

lemma print_cves_go:
  "fst (print_cve W cfg cve st) = None \<Longrightarrow>
     print_cves W cfg (cve # rest) st = print_cves W cfg rest (snd (print_cve W cfg cve st))"
  by (cases "print_cve W cfg cve st") auto

text \<open>
  C1, as amended. A fetch that fails with a connection error or with another request
  exception that is not an HTTP status error (a timeout) ends the run at once with exit
  status 1: nothing is added to the report for the identifier, and the identifiers after
  it are not processed. A fetch answered with any HTTP error status, 4xx and 5xx alike,
  is the recoverable "not found" condition: the fallback block is printed (unless only
  counting), the counter stays, and the run goes on with the next identifier.
\<close>

theorem fetch_failure_policy:
  "((http_get W (cve_url cve) = ConnectionError e \<or> http_get W (cve_url cve) = RequestException e) \<longrightarrow>
      print_cves W cfg (cve # rest) st = print_cve W cfg cve st \<and>
      fst (print_cve W cfg cve st) = Some (Exit 1) \<and>
      report cfg (snd (print_cve W cfg cve st)) = report cfg st \<and>
      cveCount (snd (print_cve W cfg cve st)) = cveCount st) \<and>
   ((http_get W (cve_url cve) = Response status e body \<and> 400 \<le> status \<and> status < 600) \<longrightarrow>
      print_cves W cfg (cve # rest) st = print_cves W cfg rest (snd (print_cve W cfg cve st)) \<and>
      fst (print_cve W cfg cve st) = None \<and>
      report cfg (snd (print_cve W cfg cve st)) =
        report cfg st @ (if onlyCount cfg then [] else fallback_block cve) \<and>
      cveCount (snd (print_cve W cfg cve st)) = cveCount st)"
proof (intro conjI impI)
  assume "http_get W (cve_url cve) = ConnectionError e \<or> http_get W (cve_url cve) = RequestException e"
  then have f: "get_cve W cve = FailedConnection e \<or> get_cve W cve = FailedRequest e"
    by (auto simp: get_cve_def)
  show "print_cves W cfg (cve # rest) st = print_cve W cfg cve st"
    using print_cve_fatal(1)[OF f] by (rule print_cves_stop)
  show "fst (print_cve W cfg cve st) = Some (Exit 1)"
    by (rule print_cve_fatal(1)[OF f])
  show "report cfg (snd (print_cve W cfg cve st)) = report cfg st"
    by (rule print_cve_fatal(3)[OF f])
  show "cveCount (snd (print_cve W cfg cve st)) = cveCount st"
    by (rule print_cve_fatal(2)[OF f])
next
  assume "http_get W (cve_url cve) = Response status e body \<and> 400 \<le> status \<and> status < 600"
  then have f: "get_cve W cve = FailedHTTP e"
    by (simp add: get_cve_status_error)
  show "print_cves W cfg (cve # rest) st = print_cves W cfg rest (snd (print_cve W cfg cve st))"
    using print_cve_FailedHTTP(1)[OF f] by (rule print_cves_go)
  show "fst (print_cve W cfg cve st) = None"
    by (rule print_cve_FailedHTTP(1)[OF f])
  show "report cfg (snd (print_cve W cfg cve st)) =
        report cfg st @ (if onlyCount cfg then [] else fallback_block cve)"
    by (rule print_cve_FailedHTTP(3)[OF f])
  show "cveCount (snd (print_cve W cfg cve st)) = cveCount st"
    by (rule print_cve_FailedHTTP(2)[OF f])
qed

lemma two_failures_get:
  "http_get two_failures (cve_url ''CVE-2016-0001'') = Response 500 ''500 Server Error: Internal Server Error'' None"
  "http_get two_failures (cve_url ''CVE-2016-0002'') = ConnectionError ''Connection refused''"
  "http_get two_failures (cve_url ''CVE-2016-5387'') = Response 200 [] (Some (JObj [(''name'', JStr ''CVE-2016-5387'')]))"
  by (simp_all add: two_failures_def serve_def cve_url_def apiurl_def)

theorem fetch_failure_policy_witness:
  "fst (print_cve two_failures plain ''CVE-2016-0002'' start) = Some (Exit 1) \<and>
   print_cves two_failures plain [''CVE-2016-0002'', ''CVE-2016-5387''] start =
     print_cve two_failures plain ''CVE-2016-0002'' start \<and>
   report plain (snd (print_cve two_failures plain ''CVE-2016-0002'' start)) = [] \<and>
   fst (print_cve two_failures plain ''CVE-2016-0001'' start) = None \<and>
   report plain (snd (print_cve two_failures plain ''CVE-2016-0001'' start)) =
     fallback_block ''CVE-2016-0001''"
proof -
  have c: "\<not> onlyCount plain" "report plain start = []"
    by (simp_all add: plain_def init_def report_def start_def)
  have s: "(500::nat) < 600" "(400::nat) \<le> 500" by simp_all
  from fetch_failure_policy[of two_failures "''CVE-2016-0002''" "''Connection refused''" plain
      "[''CVE-2016-5387'']" start] two_failures_get(2)
  have a: "print_cves two_failures plain [''CVE-2016-0002'', ''CVE-2016-5387''] start =
             print_cve two_failures plain ''CVE-2016-0002'' start \<and>
           fst (print_cve two_failures plain ''CVE-2016-0002'' start) = Some (Exit 1) \<and>
           report plain (snd (print_cve two_failures plain ''CVE-2016-0002'' start)) = report plain start"
    by blast
  from fetch_failure_policy[of two_failures "''CVE-2016-0001''"
      "''500 Server Error: Internal Server Error''" plain _ start 500 None] two_failures_get(1) s
  have b: "fst (print_cve two_failures plain ''CVE-2016-0001'' start) = None \<and>
           report plain (snd (print_cve two_failures plain ''CVE-2016-0001'' start)) =
             report plain start @ (if onlyCount plain then [] else fallback_block ''CVE-2016-0001'')"
    by blast
  from a b c show ?thesis by simp
qed

text \<open>
  The claim as stated fails for a server error: identifier \<open>CVE-2016-0001\<close> is answered
  with status 500, yet the run does not stop: its fallback block is printed and the next
  identifier is rendered.
\<close>

theorem server_error_counterexample:
  "get_cve two_failures ''CVE-2016-0001'' = FailedHTTP ''500 Server Error: Internal Server Error'' \<and>
   print_cves two_failures plain [''CVE-2016-0001'', ''CVE-2016-5387''] start =
     (None,
      \<lparr>stdout = ''CVE-2016-0001\<newline> Not present in Red Hat CVE database\<newline> Try https://cve.mitre.org/cgi-bin/cvename.cgi?name=CVE-2016-0001\<newline>\<newline>CVE-2016-5387\<newline>'',
       paste = [],
       stderr = ''rhsecapi: 500 Server Error: Internal Server Error\<newline>'',
       cveCount = 0\<rparr>)"
  by code_simp

section \<open>Counting only\<close>

lemma print_cve_count:
  assumes "onlyCount cfg" and "is_found W cve \<or> is_not_found W cve"
  shows "print_cve W cfg cve st =
           (None, st\<lparr>stderr := stderr st @ fetch_log W cfg cve,
                       cveCount := cveCount st + (if is_found W cve then 1 else 0)\<rparr>)"
  using assms
  by (cases "get_cve W cve")
     (simp_all add: print_cve_def Let_def is_found_def is_not_found_def fetch_log_def eprint_def)

lemma print_cves_count:
  assumes "onlyCount cfg" and "\<forall>cve \<in> set cves. is_found W cve \<or> is_not_found W cve"
  shows "print_cves W cfg cves st =
           (None, st\<lparr>stderr := stderr st @ concat (map (fetch_log W cfg) cves),
                       cveCount := cveCount st + found_count W cves\<rparr>)"
  using assms(2)
proof (induction cves arbitrary: st)
  case Nil
  then show ?case by (simp add: found_count_def)
next
  case (Cons cve cves)
  then have one: "is_found W cve \<or> is_not_found W cve"
    and rest: "\<forall>c \<in> set cves. is_found W c \<or> is_not_found W c"
    by simp_all
  show ?case
    by (simp add: print_cve_count[OF assms(1) one] Cons.IH[OF rest] found_count_def)
qed

lemma found_count_le: "found_count W cves \<le> length cves"
  by (simp add: found_count_def)

lemma str_int_diff: "k \<le> m \<Longrightarrow> str_int (int m - int k) = str_nat (m - k)"
  by (simp add: str_int_def nat_diff_distrib' del: str_nat.simps)

text \<open>
  C6, as amended. In count-only mode, for every non-empty identifier list of length M of
  which K identifiers fetch successfully and the rest fail as not found, nothing is
  added to the primary report, the found-counter ends at K, and standard error receives,
  after what the fetches themselves log there, exactly the lines
  \<open>Valid CVE results found: K of M\<close> and \<open>Invalid CVE queries: M-K of M\<close>.
\<close>

theorem count_only_report:
  assumes "onlyCount cfg" and "cves \<noteq> []"
    and "\<forall>cve \<in> set cves. is_found W cve \<or> is_not_found W cve"
    and "cveCount st = 0"
  shows "main_cves W cfg cves st =
           (None,
            st\<lparr>stderr := stderr st @ concat (map (fetch_log W cfg) cves) @
                   ''Valid CVE results found: '' @ str_nat (found_count W cves) @ '' of '' @
                     str_nat (length cves) @ ''\<newline>'' @
                   ''Invalid CVE queries: '' @ str_nat (length cves - found_count W cves) @ '' of '' @
                     str_nat (length cves) @ ''\<newline>'',
                cveCount := found_count W cves\<rparr>)"
  using assms(1,2,4) found_count_le[of W cves]
  by (simp add: main_cves_def print_cves_count[OF assms(1,3)] eprint_def str_int_diff
           del: str_nat.simps)

theorem count_only_report_witness:
  "main_cves three_ids counting [''CVE-2016-5387'', ''CVE-0000-0000'', ''CVE-2016-5386''] start =
     (None,
      \<lparr>stdout = [], paste = [],
       stderr = ''rhsecapi: 404 Client Error: Not Found\<newline>Valid CVE results found: 2 of 3\<newline>Invalid CVE queries: 1 of 3\<newline>'',
       cveCount = 2\<rparr>)"
proof -
  have h1: "onlyCount counting" by (simp add: counting_def init_def)
  have h2: "[''CVE-2016-5387'', ''CVE-0000-0000'', ''CVE-2016-5386''] \<noteq> []" by simp
  have h3: "\<forall>cve \<in> set [''CVE-2016-5387'', ''CVE-0000-0000'', ''CVE-2016-5386''].
              is_found three_ids cve \<or> is_not_found three_ids cve"
    by code_simp
  have h4: "cveCount start = 0" by (simp add: start_def)
  have v: "start\<lparr>stderr := stderr start @
              concat (map (fetch_log three_ids counting) [''CVE-2016-5387'', ''CVE-0000-0000'', ''CVE-2016-5386'']) @
              ''Valid CVE results found: '' @
              str_nat (found_count three_ids [''CVE-2016-5387'', ''CVE-0000-0000'', ''CVE-2016-5386'']) @ '' of '' @
              str_nat (length [''CVE-2016-5387'', ''CVE-0000-0000'', ''CVE-2016-5386'']) @ ''\<newline>'' @
              ''Invalid CVE queries: '' @
              str_nat (length [''CVE-2016-5387'', ''CVE-0000-0000'', ''CVE-2016-5386''] -
                       found_count three_ids [''CVE-2016-5387'', ''CVE-0000-0000'', ''CVE-2016-5386'']) @ '' of '' @
              str_nat (length [''CVE-2016-5387'', ''CVE-0000-0000'', ''CVE-2016-5386'']) @ ''\<newline>'',
            cveCount := found_count three_ids [''CVE-2016-5387'', ''CVE-0000-0000'', ''CVE-2016-5386'']\<rparr> =
          \<lparr>stdout = [], paste = [],
           stderr = ''rhsecapi: 404 Client Error: Not Found\<newline>Valid CVE results found: 2 of 3\<newline>Invalid CVE queries: 1 of 3\<newline>'',
           cveCount = 2\<rparr>"
    by code_simp
  show ?thesis
    unfolding count_only_report[OF h1 h2 h3 h4] v ..
qed

text \<open>
  The claim as stated fails for the empty identifier list (M = 0): the loop and the two
  count lines are guarded by \<open>if opts.cves:\<close>, so nothing is written at all.
\<close>

theorem count_only_empty_counterexample:
  "main_cves three_ids counting [] start = (None, start) \<and>
   stderr (snd (main_cves three_ids counting [] start)) \<noteq>
     ''Valid CVE results found: 0 of 0\<newline>Invalid CVE queries: 0 of 0\<newline>''"
  by (simp add: main_cves_def start_def)

section \<open>The CWE link\<close>

text \<open>
  C3. With URLs on, the record \<open>{"name": "CVE-2016-0001", "cwe": "CWE-CWE-79"}\<close> gets
  the link for \<open>79\<close>: \<open>lstrip("CWE-")\<close> drops every leading character among C, W, E
  and the hyphen, where removing the literal prefix leaves \<open>CWE-79\<close>.
\<close>

theorem cwe_link_strips_characters:
  "print_cve
     (serve [(''CVE-2016-0001'',
              Response 200 [] (Some (JObj [(''name'', JStr ''CVE-2016-0001''), (''cwe'', JStr ''CWE-CWE-79'')])))])
     (init 80 ''cwe'' True False False False False 0) ''CVE-2016-0001'' start =
     (None,
      start\<lparr>stdout := ''CVE-2016-0001 (https://access.redhat.com/security/cve/CVE-2016-0001)\<newline>  CWE:  CWE-CWE-79 (http://cwe.mitre.org/data/definitions/79.html)\<newline>\<newline>''\<rparr>) \<and>
   remove_prefix ''CWE-'' ''CWE-CWE-79'' = ''CWE-79''"
  by code_simp

section \<open>The identifier line needs the record's name\<close>

text \<open>
  C10. For every fetched record without the key \<open>name\<close>, rendering in fielded-text mode
  stops with \<open>KeyError('name')\<close> before anything is printed.
\<close>

theorem name_is_required:
  assumes "get_cve W cve = Fetched (JObj d)" and "map_of d ''name'' = None"
    and "\<not> onlyCount cfg" and "\<not> rawOutput cfg"
  shows "fst (print_cve W cfg cve st) = Some (Raised (KeyError ''name'')) \<and>
         report cfg (snd (print_cve W cfg cve st)) = report cfg st"
  using assms
  by (simp add: print_cve_def Let_def fielded_def header_def seq_def need_def)

theorem name_is_required_witness:
  "fst (print_cve (serve [(''CVE-2016-0001'', Response 200 [] (Some (JObj [(''threat_severity'', JStr ''Low'')])))])
          plain ''CVE-2016-0001'' start) = Some (Raised (KeyError ''name'')) \<and>
   report plain (snd (print_cve (serve [(''CVE-2016-0001'', Response 200 [] (Some (JObj [(''threat_severity'', JStr ''Low'')])))])
          plain ''CVE-2016-0001'' start)) = []"
proof -
  have h1: "get_cve (serve [(''CVE-2016-0001'', Response 200 [] (Some (JObj [(''threat_severity'', JStr ''Low'')])))])
              ''CVE-2016-0001'' = Fetched (JObj [(''threat_severity'', JStr ''Low'')])"
    by code_simp
  have h2: "map_of [(''threat_severity'', JStr ''Low'' :: nat json)] ''name'' = None" by simp
  have h3: "\<not> onlyCount plain" "\<not> rawOutput plain" "report plain start = []"
    by (simp_all add: plain_def init_def report_def start_def)
  from name_is_required[OF h1 h2 h3(1,2), of start] h3(3) show ?thesis by simp
qed

section \<open>The selection and the shape of a record\<close>

lemmas block_defs =
  show_threat_severity_def show_public_date_def show_cwe_def show_cvss_def show_cvss3_def
  show_score_def show_bugzilla_def show_text_def show_affected_release_def show_package_state_def

lemma fielded_cong:
  assumes "printUrls cfg1 = printUrls cfg2" and "w cfg1 = w cfg2"
    and "(desiredFields cfg1 = []) = (desiredFields cfg2 = [])"
    and "(''bugzilla'' \<in> set (desiredFields cfg1)) = (''bugzilla'' \<in> set (desiredFields cfg2))"
    and "\<And>f. f \<in> set checked_fields \<Longrightarrow> check_field cfg1 f j = check_field cfg2 f j"
  shows "fielded W cfg1 cve j = fielded W cfg2 cve j"
proof -
  have c: "check_field cfg1 ''threat_severity'' j = check_field cfg2 ''threat_severity'' j"
    "check_field cfg1 ''public_date'' j = check_field cfg2 ''public_date'' j"
    "check_field cfg1 ''cwe'' j = check_field cfg2 ''cwe'' j"
    "check_field cfg1 ''cvss'' j = check_field cfg2 ''cvss'' j"
    "check_field cfg1 ''cvss3'' j = check_field cfg2 ''cvss3'' j"
    "check_field cfg1 ''acknowledgement'' j = check_field cfg2 ''acknowledgement'' j"
    "check_field cfg1 ''details'' j = check_field cfg2 ''details'' j"
    "check_field cfg1 ''statement'' j = check_field cfg2 ''statement'' j"
    "check_field cfg1 ''affected_release'' j = check_field cfg2 ''affected_release'' j"
    "check_field cfg1 ''package_state'' j = check_field cfg2 ''package_state'' j"
    by (rule assms(5), simp add: checked_fields_def)+
  have h: "header W cfg1 cve j = header W cfg2 cve j"
    by (simp add: header_def assms(1))
  have r: "release_line W cfg1 = release_line W cfg2" "state_line W cfg1 = state_line W cfg2"
    by (simp_all add: fun_eq_iff release_line_def state_line_def assms(1))
  show ?thesis
    unfolding fielded_def block_defs when_field_def h c r assms(1,2,3,4) ..
qed

lemma Print_desiredFields: "Print (cfg\<lparr>desiredFields := fs\<rparr>) = Print cfg"
  by (simp add: fun_eq_iff Print_def)

text \<open>
  C8. Two selections with the same set of field names give the same run of \<open>print_cve\<close>,
  whatever the order of the names and however often a name is repeated.
\<close>

theorem selection_is_a_set:
  assumes "set fs1 = set fs2"
  shows "print_cve W (cfg\<lparr>desiredFields := fs1\<rparr>) cve st = print_cve W (cfg\<lparr>desiredFields := fs2\<rparr>) cve st"
proof -
  have e: "(fs1 = []) = (fs2 = [])"
    using assms by (metis set_empty)
  have "fielded W (cfg\<lparr>desiredFields := fs1\<rparr>) cve j = fielded W (cfg\<lparr>desiredFields := fs2\<rparr>) cve j" for j
    by (rule fielded_cong) (simp_all add: assms e check_field_def)
  then show ?thesis
    by (cases "get_cve W cve") (simp_all add: print_cve_def Let_def Print_desiredFields)
qed

theorem selection_is_a_set_witness:
  "print_cve three_ids (plain\<lparr>desiredFields := [''bugzilla'', ''cwe'', ''bugzilla'']\<rparr>) ''CVE-2016-5387'' start =
   print_cve three_ids (plain\<lparr>desiredFields := [''cwe'', ''bugzilla'']\<rparr>) ''CVE-2016-5387'' start"
proof -
  have "set [''bugzilla'', ''cwe'', ''bugzilla''] = set [''cwe'', ''bugzilla'']" by auto
  then show ?thesis by (rule selection_is_a_set)
qed


lemma in_order_single: "in_order [p] = p"
  by (cases p) (simp add: seq_def emit_def split: option.splits)

text \<open>
  C5. The loop over \<open>affected_release\<close> (likewise \<open>package_state\<close>) iterates a bare
  mapping as the one-element sequence of that mapping and a list as it is. So a record
  whose field is a bare mapping renders exactly as the record that has the one-element
  list of that mapping in its place, and the block of the field, when the field is
  selected, is the heading followed by the one line of that mapping; the block of a
  list is the heading followed by the lines of its elements in their order.
\<close>

theorem bare_mapping_as_list:
  assumes "k = ''affected_release'' \<or> k = ''package_state''"
    and "map_of d k = Some (JObj r)"
    and "map_of d' = (map_of d)(k \<mapsto> JList [JObj r])"
  shows "entries (JObj r) = Inr [JObj r] \<and>
         entries (JList xs) = Inr xs \<and>
         fielded W cfg cve (JObj d') = fielded W cfg cve (JObj d) \<and>
         (k = ''affected_release'' \<longrightarrow>
            show_affected_release W cfg (JObj d') = show_affected_release W cfg (JObj d) \<and>
            show_affected_release W cfg (JObj d) =
              (if k \<in> set (desiredFields cfg)
               then seq (emit ''  AFFECTED_RELEASE (ERRATA)\<newline>'') (release_line W cfg (JObj r))
               else emit [])) \<and>
         (k = ''package_state'' \<longrightarrow>
            show_package_state W cfg (JObj d') = show_package_state W cfg (JObj d) \<and>
            show_package_state W cfg (JObj d) =
              (if k \<in> set (desiredFields cfg)
               then seq (emit ''  PACKAGE_STATE\<newline>'') (state_line W cfg (JObj r))
               else emit [])) \<and>
         (map_of e ''affected_release'' = Some (JList xs) \<longrightarrow>
            show_affected_release W cfg (JObj e) =
              (if ''affected_release'' \<in> set (desiredFields cfg)
               then seq (emit ''  AFFECTED_RELEASE (ERRATA)\<newline>'')
                      (in_order (map (release_line W cfg) xs))
               else emit [])) \<and>
         (map_of e ''package_state'' = Some (JList xs) \<longrightarrow>
            show_package_state W cfg (JObj e) =
              (if ''package_state'' \<in> set (desiredFields cfg)
               then seq (emit ''  PACKAGE_STATE\<newline>'')
                      (in_order (map (state_line W cfg) xs))
               else emit []))"
proof (intro conjI impI)
  show "entries (JObj r) = Inr [JObj r]" by simp
  show "entries (JList xs) = Inr xs" by simp
  have has: "has_key (JObj d') g = has_key (JObj d) g" for g
    using assms(2,3) by simp
  have get: "g \<noteq> k \<Longrightarrow> getitem (JObj d') g = getitem (JObj d) g" for g
    using assms(3) by simp
  have getk: "getitem (JObj d') k = Inr (JList [JObj r])" "getitem (JObj d) k = Inr (JObj r)"
    using assms(2,3) by simp_all
  have chk: "check_field cfg g (JObj d') = check_field cfg g (JObj d)" for g
    by (simp only: check_field_def has)
  have chkk: "check_field cfg k (JObj d) = Inr (k \<in> set (desiredFields cfg))"
    using assms(2) by (simp add: check_field_def)
  have gn: "getitem (JObj d') ''name'' = getitem (JObj d) ''name''"
    using assms(1) by (intro get) auto
  have hd: "header W cfg cve (JObj d') = header W cfg cve (JObj d)"
    by (simp only: header_def gn)
  have same: "need (getitem (JObj d') k) (\<lambda>v. need (entries v) f) =
              need (getitem (JObj d) k) (\<lambda>v. need (entries v) f)" for f :: "'a json list \<Rightarrow> piece"
    unfolding getk by (simp add: need_def)
  from assms(1) show "fielded W cfg cve (JObj d') = fielded W cfg cve (JObj d)"
  proof
    assume k: "k = ''affected_release''"
    have g: "getitem (JObj d') ''threat_severity'' = getitem (JObj d) ''threat_severity''"
      "getitem (JObj d') ''public_date'' = getitem (JObj d) ''public_date''"
      "getitem (JObj d') ''cwe'' = getitem (JObj d) ''cwe''"
      "getitem (JObj d') ''cvss'' = getitem (JObj d) ''cvss''"
      "getitem (JObj d') ''cvss3'' = getitem (JObj d) ''cvss3''"
      "getitem (JObj d') ''bugzilla'' = getitem (JObj d) ''bugzilla''"
      "getitem (JObj d') ''acknowledgement'' = getitem (JObj d) ''acknowledgement''"
      "getitem (JObj d') ''details'' = getitem (JObj d) ''details''"
      "getitem (JObj d') ''statement'' = getitem (JObj d) ''statement''"
      "getitem (JObj d') ''package_state'' = getitem (JObj d) ''package_state''"
      by (rule get, simp add: k)+
    show ?thesis
      unfolding fielded_def block_defs when_field_def chk has hd g same[unfolded k] ..
  next
    assume k: "k = ''package_state''"
    have g: "getitem (JObj d') ''threat_severity'' = getitem (JObj d) ''threat_severity''"
      "getitem (JObj d') ''public_date'' = getitem (JObj d) ''public_date''"
      "getitem (JObj d') ''cwe'' = getitem (JObj d) ''cwe''"
      "getitem (JObj d') ''cvss'' = getitem (JObj d) ''cvss''"
      "getitem (JObj d') ''cvss3'' = getitem (JObj d) ''cvss3''"
      "getitem (JObj d') ''bugzilla'' = getitem (JObj d) ''bugzilla''"
      "getitem (JObj d') ''acknowledgement'' = getitem (JObj d) ''acknowledgement''"
      "getitem (JObj d') ''details'' = getitem (JObj d) ''details''"
      "getitem (JObj d') ''statement'' = getitem (JObj d) ''statement''"
      "getitem (JObj d') ''affected_release'' = getitem (JObj d) ''affected_release''"
      by (rule get, simp add: k)+
    show ?thesis
      unfolding fielded_def block_defs when_field_def chk has hd g same[unfolded k] ..
  qed
  {
    assume k: "k = ''affected_release''"
    show "show_affected_release W cfg (JObj d') = show_affected_release W cfg (JObj d)"
      unfolding show_affected_release_def when_field_def chk same[unfolded k] ..
    show "show_affected_release W cfg (JObj d) =
            (if k \<in> set (desiredFields cfg)
             then seq (emit ''  AFFECTED_RELEASE (ERRATA)\<newline>'') (release_line W cfg (JObj r))
             else emit [])"
      unfolding show_affected_release_def when_field_def chkk[unfolded k] getk[unfolded k]
      unfolding k by (simp add: need_def in_order_single del: in_order.simps)
  }
  {
    assume k: "k = ''package_state''"
    show "show_package_state W cfg (JObj d') = show_package_state W cfg (JObj d)"
      unfolding show_package_state_def when_field_def chk same[unfolded k] ..
    show "show_package_state W cfg (JObj d) =
            (if k \<in> set (desiredFields cfg)
             then seq (emit ''  PACKAGE_STATE\<newline>'') (state_line W cfg (JObj r))
             else emit [])"
      unfolding show_package_state_def when_field_def chkk[unfolded k] getk[unfolded k]
      unfolding k by (simp add: need_def in_order_single del: in_order.simps)
  }
  {
    assume "map_of e ''affected_release'' = Some (JList xs)"
    then show "show_affected_release W cfg (JObj e) =
        (if ''affected_release'' \<in> set (desiredFields cfg)
         then seq (emit ''  AFFECTED_RELEASE (ERRATA)\<newline>'')
                (in_order (map (release_line W cfg) xs))
         else emit [])"
      by (simp add: show_affected_release_def when_field_def check_field_def need_def)
  }
  {
    assume "map_of e ''package_state'' = Some (JList xs)"
    then show "show_package_state W cfg (JObj e) =
        (if ''package_state'' \<in> set (desiredFields cfg)
         then seq (emit ''  PACKAGE_STATE\<newline>'')
                (in_order (map (state_line W cfg) xs))
         else emit [])"
      by (simp add: show_package_state_def when_field_def check_field_def need_def)
  }
qed

theorem bare_mapping_as_list_witness:
  "fielded (serve []) (plain\<lparr>desiredFields := [''affected_release'']\<rparr>) ''CVE-2016-5387'' listed_release =
     (''CVE-2016-5387\<newline>  AFFECTED_RELEASE (ERRATA)\<newline>   Red Hat Enterprise Linux 7 [httpd-2.4.6-40.el7_2.4]: RHSA-2016:1422\<newline>\<newline>'', None) \<and>
   fielded (serve []) (plain\<lparr>desiredFields := [''affected_release'']\<rparr>) ''CVE-2016-5387'' bare_release =
     (''CVE-2016-5387\<newline>  AFFECTED_RELEASE (ERRATA)\<newline>   Red Hat Enterprise Linux 7 [httpd-2.4.6-40.el7_2.4]: RHSA-2016:1422\<newline>\<newline>'', None) \<and>
   show_affected_release (serve []) (plain\<lparr>desiredFields := [''affected_release'']\<rparr>) listed_release =
     (''  AFFECTED_RELEASE (ERRATA)\<newline>   Red Hat Enterprise Linux 7 [httpd-2.4.6-40.el7_2.4]: RHSA-2016:1422\<newline>'', None)"
proof -
  let ?cfg = "plain\<lparr>desiredFields := [''affected_release'']\<rparr>"
  let ?d = "[(''name'', JStr ''CVE-2016-5387''), (''affected_release'', JObj one_release)]"
  let ?d' = "[(''affected_release'', JList [JObj one_release]), (''name'', JStr ''CVE-2016-5387'')]"
  have h1: "''affected_release'' = ''affected_release'' \<or> ''affected_release'' = ''package_state''"
    by simp
  have h2: "map_of ?d ''affected_release'' = Some (JObj one_release)"
    by simp
  have h3: "map_of ?d' = (map_of ?d)(''affected_release'' \<mapsto> JList [JObj one_release])"
    by (auto simp: fun_eq_iff)
  note t = bare_mapping_as_list[OF h1 h2 h3, of "[]" "serve []" ?cfg "''CVE-2016-5387''"]
  have b: "fielded (serve []) ?cfg ''CVE-2016-5387'' bare_release =
     (''CVE-2016-5387\<newline>  AFFECTED_RELEASE (ERRATA)\<newline>   Red Hat Enterprise Linux 7 [httpd-2.4.6-40.el7_2.4]: RHSA-2016:1422\<newline>\<newline>'', None)"
    by code_simp
  from t have e: "fielded (serve []) ?cfg ''CVE-2016-5387'' (JObj ?d') =
      fielded (serve []) ?cfg ''CVE-2016-5387'' (JObj ?d)"
    by blast
  from t have s: "show_affected_release (serve []) ?cfg (JObj ?d') = show_affected_release (serve []) ?cfg (JObj ?d)"
    "show_affected_release (serve []) ?cfg (JObj ?d) =
       (if ''affected_release'' \<in> set (desiredFields ?cfg)
        then seq (emit ''  AFFECTED_RELEASE (ERRATA)\<newline>'') (release_line (serve []) ?cfg (JObj one_release))
        else emit [])"
    by blast+
  have m: "''affected_release'' \<in> set (desiredFields ?cfg)" by simp
  from e b have a: "fielded (serve []) ?cfg ''CVE-2016-5387'' listed_release =
     (''CVE-2016-5387\<newline>  AFFECTED_RELEASE (ERRATA)\<newline>   Red Hat Enterprise Linux 7 [httpd-2.4.6-40.el7_2.4]: RHSA-2016:1422\<newline>\<newline>'', None)"
    by (simp only: listed_release_def bare_release_def)
  have l: "seq (emit ''  AFFECTED_RELEASE (ERRATA)\<newline>'') (release_line (serve []) ?cfg (JObj one_release)) =
     (''  AFFECTED_RELEASE (ERRATA)\<newline>   Red Hat Enterprise Linux 7 [httpd-2.4.6-40.el7_2.4]: RHSA-2016:1422\<newline>'', None)"
    by code_simp
  from s m have "show_affected_release (serve []) ?cfg listed_release =
     seq (emit ''  AFFECTED_RELEASE (ERRATA)\<newline>'')
       (release_line (serve []) ?cfg (JObj one_release))"
    by (simp only: listed_release_def if_True)
  then have c: "show_affected_release (serve []) ?cfg listed_release =
     (''  AFFECTED_RELEASE (ERRATA)\<newline>   Red Hat Enterprise Linux 7 [httpd-2.4.6-40.el7_2.4]: RHSA-2016:1422\<newline>'', None)"
    by (simp only: l)
  from a b c show ?thesis by (intro conjI)
qed


section \<open>Lines of a rendered block\<close>

lemma nl_ended_Nil [simp]: "nl_ended []"
  by (simp add: nl_ended_def)

lemma nl_ended_Cons [simp]: "nl_ended (c # t) \<longleftrightarrow> (if t = [] then c = CHR 0x0A else nl_ended t)"
  by (simp add: nl_ended_def)

lemma nl_ended_append [simp]: "nl_ended (a @ b) \<longleftrightarrow> (if b = [] then nl_ended a else nl_ended b)"
  by (simp add: nl_ended_def)

lemma tidy_emit [simp]: "tidy (emit t) \<longleftrightarrow> nl_ended t"
  by (simp add: tidy_def emit_def)

lemma tidy_need [intro!]: "(\<And>v. tidy (f v)) \<Longrightarrow> tidy (need r f)"
  by (cases r) (simp_all add: need_def tidy_def)

lemma tidy_need_text [intro!]: "(\<And>v. tidy (f v)) \<Longrightarrow> tidy (need_text r f)"
  by (cases r) (simp_all add: need_text_def tidy_def)

lemma tidy_seq [intro!]: "tidy p \<Longrightarrow> tidy q \<Longrightarrow> tidy (seq p q)"
  by (cases p; cases q) (auto simp: seq_def tidy_def split: option.splits)

lemma tidy_in_order: "(\<And>p. p \<in> set ps \<Longrightarrow> tidy p) \<Longrightarrow> tidy (in_order ps)"
  by (induction ps) auto

lemma tidy_when_field [intro!]: "tidy body \<Longrightarrow> tidy (when_field cfg f j body)"
  by (auto simp: when_field_def)

lemma tidy_if [intro!]: "tidy p \<Longrightarrow> tidy q \<Longrightarrow> tidy (if b then p else q)"
  by simp

lemma tidy_release_line: "tidy (release_line W cfg r)"
  by (auto simp: release_line_def)

lemma tidy_state_line: "tidy (state_line W cfg r)"
  by (auto simp: state_line_def)

lemma tidy_blocks:
  "tidy (show_threat_severity W cfg j)"
  "tidy (show_public_date W cfg j)"
  "tidy (show_cwe W cfg j)"
  "tidy (show_cvss W cfg j)"
  "tidy (show_cvss3 W cfg j)"
  "tidy (show_bugzilla W cfg j)"
  "tidy (show_text cfg j f (l1 # label))"
  "tidy (show_affected_release W cfg j)"
  "tidy (show_package_state W cfg j)"
  by (auto simp: block_defs Let_def intro!: tidy_in_order tidy_release_line tidy_state_line)

lemma seq_None:
  "seq p q = (t, None) \<longleftrightarrow> (\<exists>a b. p = (a, None) \<and> q = (b, None) \<and> t = a @ b)"
  by (cases p; cases q) (auto simp: seq_def split: option.splits)

lemma in_order_append: "in_order (ps @ qs) = seq (in_order ps) (in_order qs)"
  by (induction ps) (auto simp: seq_def emit_def split: option.splits)

lemma header_text:
  "header W cfg cve j = (t, None) \<Longrightarrow> t \<noteq> [] \<and> last t = CHR 0x0A"
  by (auto simp: header_def need_def emit_def Let_def split: sum.splits if_splits)

lemma blank_terminatedI: "t \<noteq> [] \<Longrightarrow> last t = CHR 0x0A \<Longrightarrow> blank_terminated (t @ ''\<newline>'')"
proof -
  assume "t \<noteq> []" and "last t = CHR 0x0A"
  then obtain b where "t = b @ ''\<newline>''"
    by (metis append_butlast_last_id)
  then show ?thesis by (simp add: blank_terminated_def)
qed

lemma fielded_blocks:
  "fielded W cfg cve j =
     seq (header W cfg cve j)
       (if desiredFields cfg = [] then emit []
        else seq (in_order (field_blocks W cfg j)) (emit ''\<newline>''))"
proof -
  have "in_order (field_blocks W cfg j @ [emit ''\<newline>'']) =
        seq (in_order (field_blocks W cfg j)) (emit ''\<newline>'')"
    unfolding in_order_append by (simp add: seq_def emit_def)
  then show ?thesis
    by (simp add: fielded_def field_blocks_def)
qed

lemma tidy_field_blocks: "tidy (in_order (field_blocks W cfg j))"
  by (rule tidy_in_order) (auto simp: field_blocks_def tidy_blocks)

lemma fielded_selected:
  assumes "fielded W cfg cve j = (text, None)" and "desiredFields cfg \<noteq> []"
  shows "blank_terminated text"
proof -
  from assms obtain h b where h: "header W cfg cve j = (h, None)"
    and b: "in_order (field_blocks W cfg j) = (b, None)" and t: "text = h @ b @ ''\<newline>''"
    by (auto simp: fielded_blocks seq_None emit_def)
  from tidy_field_blocks[of W cfg j] b have "nl_ended b" by (simp add: tidy_def)
  with header_text[OF h] have "h @ b \<noteq> []" "last (h @ b) = CHR 0x0A"
    by (cases "b = []"; simp add: nl_ended_def)+
  then have "blank_terminated ((h @ b) @ ''\<newline>'')" by (rule blank_terminatedI)
  with t show ?thesis by simp
qed

lemma fielded_unselected:
  assumes "desiredFields cfg = []"
  shows "fielded W cfg cve j = header W cfg cve j"
  using assms by (cases "header W cfg cve j") (auto simp: fielded_blocks seq_def emit_def split: option.splits)

lemma print_cve_fielded:
  assumes "get_cve W cve = Fetched j" and "\<not> onlyCount cfg" and "\<not> rawOutput cfg"
  shows "fst (print_cve W cfg cve st) = snd (fielded W cfg cve j)"
    and "report cfg (snd (print_cve W cfg cve st)) = report cfg st @ fst (fielded W cfg cve j)"
  using assms by (simp_all add: print_cve_def Let_def split: prod.splits)

text \<open>
  C9, as amended. A fetched record that is rendered in fielded-text mode without an
  error adds to the report a block that ends with a blank line when the selection is not
  empty; with the empty selection the block is the identifier line alone.
\<close>

theorem block_ends_with_blank_line:
  assumes "get_cve W cve = Fetched j" and "\<not> onlyCount cfg" and "\<not> rawOutput cfg"
    and "fst (print_cve W cfg cve st) = None"
  shows "\<exists>text. report cfg (snd (print_cve W cfg cve st)) = report cfg st @ text \<and>
           (if desiredFields cfg = [] then header W cfg cve j = (text, None)
            else blank_terminated text)"
proof -
  from assms have n: "snd (fielded W cfg cve j) = None"
    by (simp add: print_cve_fielded(1))
  then have f: "fielded W cfg cve j = (fst (fielded W cfg cve j), None)"
    by (metis prod.collapse)
  have r: "report cfg (snd (print_cve W cfg cve st)) = report cfg st @ fst (fielded W cfg cve j)"
    using assms(1-3) by (rule print_cve_fielded(2))
  show ?thesis
  proof (cases "desiredFields cfg = []")
    case True
    with f have "header W cfg cve j = (fst (fielded W cfg cve j), None)"
      by (simp add: fielded_unselected)
    with r True show ?thesis by auto
  next
    case False
    with f have "blank_terminated (fst (fielded W cfg cve j))"
      by (rule fielded_selected)
    with r False show ?thesis by auto
  qed
qed


theorem block_ends_with_blank_line_witness:
  "blank_terminated (report severity_and_bugzilla
      (snd (print_cve three_ids severity_and_bugzilla ''CVE-2016-5387'' start))) \<and>
   header three_ids plain ''CVE-2016-5387'' (JObj [(''name'', JStr ''CVE-2016-5387'')]) =
     (report plain (snd (print_cve three_ids plain ''CVE-2016-5387'' start)), None)"
proof -
  have g: "get_cve three_ids ''CVE-2016-5387'' = Fetched (JObj [(''name'', JStr ''CVE-2016-5387'')])"
    by code_simp
  have c1: "\<not> onlyCount severity_and_bugzilla" "\<not> rawOutput severity_and_bugzilla"
    "desiredFields severity_and_bugzilla \<noteq> []" "report severity_and_bugzilla start = []"
    by (simp_all add: severity_and_bugzilla_def init_def report_def start_def)
  have c2: "\<not> onlyCount plain" "\<not> rawOutput plain" "desiredFields plain = []" "report plain start = []"
    by (simp_all add: plain_def init_def report_def start_def)
  have r1: "fst (print_cve three_ids severity_and_bugzilla ''CVE-2016-5387'' start) = None"
    by code_simp
  have r2: "fst (print_cve three_ids plain ''CVE-2016-5387'' start) = None"
    by code_simp
  from block_ends_with_blank_line[OF g c1(1,2) r1] c1(3,4)
  have a: "blank_terminated (report severity_and_bugzilla
      (snd (print_cve three_ids severity_and_bugzilla ''CVE-2016-5387'' start)))"
    by auto
  from block_ends_with_blank_line[OF g c2(1,2) r2] c2(3,4)
  have b: "header three_ids plain ''CVE-2016-5387'' (JObj [(''name'', JStr ''CVE-2016-5387'')]) =
     (report plain (snd (print_cve three_ids plain ''CVE-2016-5387'' start)), None)"
    by auto
  from a b show ?thesis ..
qed

text \<open>
  The claim as stated fails for the empty selection: after the identifier line
  \<open>print_cve\<close> returns (\<open>if not self.desiredFields: return\<close>) before the closing
  newline is printed.
\<close>

theorem empty_selection_counterexample:
  "desiredFields plain = [] \<and> \<not> onlyCount plain \<and> \<not> rawOutput plain \<and>
   get_cve three_ids ''CVE-2016-5387'' = Fetched (JObj [(''name'', JStr ''CVE-2016-5387'')]) \<and>
   print_cve three_ids plain ''CVE-2016-5387'' start = (None, start\<lparr>stdout := ''CVE-2016-5387\<newline>''\<rparr>) \<and>
   \<not> blank_terminated ''CVE-2016-5387\<newline>''"
  by code_simp

section \<open>Fields that the record lacks\<close>


lemma in_order_Cons_emit_Nil: "in_order ps = emit [] \<Longrightarrow> in_order (emit [] # ps) = emit []"
  by (simp add: seq_def emit_def)










declare wrap_chunks.simps [simp del]
declare lines_of.simps [simp del]
declare str_nat.simps [simp del]

section \<open>Wrapping\<close>

text \<open>
  C2 as stated fails. At width 6 the text \<open>ab cdefgh\<close> wraps to the lines
  \<open>"   ab "\<close>, \<open>"   cde"\<close>, \<open>"   fgh"\<close> (the word that is longer than a line leaves
  the space before it at the end of the first line), and wrapping that output again gives
  \<open>"   ab"\<close> as the first line. A list whose first fragment is empty keeps the two
  blanks of the join in front of its first line, and re-wrapping drops them. Six blanks
  between two words that do not fit on one line together become five when the lines are
  joined again, and then the words fit. With a dash of several hyphens, a line break
  before a chunk changes the chunks that the second pass finds in it.
\<close>

theorem rewrap_counterexample:
  "(stripjoin 6 (JStr ''ab cdefgh'' :: nat json) = Inr ''\<newline>   ab \<newline>   cde\<newline>   fgh'' \<and>
    stripjoin 6 (JStr ''\<newline>   ab \<newline>   cde\<newline>   fgh'' :: nat json) = Inr ''\<newline>   ab\<newline>   cde\<newline>   fgh'' \<and>
    ''\<newline>   ab \<newline>   cde\<newline>   fgh'' \<noteq> ''\<newline>   ab\<newline>   cde\<newline>   fgh'') \<and>
   (stripjoin 70 (JList [JStr [], JStr ''abcd''] :: nat json) = Inr ''\<newline>     abcd'' \<and>
    stripjoin 70 (JStr ''\<newline>     abcd'' :: nat json) = Inr ''\<newline>   abcd'' \<and>
    ''\<newline>     abcd'' \<noteq> ''\<newline>   abcd'') \<and>
   (stripjoin 12 (JStr ''aa      bb'' :: nat json) = Inr ''\<newline>   aa\<newline>   bb'' \<and>
    stripjoin 12 (JStr ''\<newline>   aa\<newline>   bb'' :: nat json) = Inr ''\<newline>   aa     bb'' \<and>
    ''\<newline>   aa\<newline>   bb'' \<noteq> ''\<newline>   aa     bb'') \<and>
   (stripjoin 10 (JStr ''b!---bb-ba'' :: nat json) = Inr ''\<newline>   b\<newline>   !---bb-\<newline>   ba'' \<and>
    stripjoin 10 (JStr ''\<newline>   b\<newline>   !---bb-\<newline>   ba'' :: nat json) = Inr ''\<newline>   b     !\<newline>   ---bb-\<newline>   ba'' \<and>
    ''\<newline>   b\<newline>   !---bb-\<newline>   ba'' \<noteq> ''\<newline>   b     !\<newline>   ---bb-\<newline>   ba'')"
  by code_simp

subsection \<open>Normalized text\<close>

lemma is_space_simps [simp]:
  "is_space CHR '' ''" "is_space CHR 0x0A" "is_space CHR 0x09" "is_space CHR 0x0D"
  by (simp_all add: is_space_def)

lemma dropWhile_rev_nonempty:
  "dropWhile P (rev xs) \<noteq> [] \<Longrightarrow> \<not> P (hd (dropWhile P (rev xs)))"
  by (metis hd_dropWhile)

lemma trimmed_strip: "trimmed (strip s)"
proof (cases "strip s = []")
  case True
  then show ?thesis by (simp add: trimmed_def)
next
  case False
  let ?a = "dropWhile is_space s"
  let ?b = "dropWhile is_space (rev ?a)"
  have s: "strip s = rev ?b" by (simp add: strip_def)
  from False have b: "?b \<noteq> []" by (simp add: s)
  then have "rev ?a \<noteq> []" by (metis dropWhile.simps(1))
  then have a: "?a \<noteq> []" by simp
  have l: "\<not> is_space (last (strip s))"
    using b by (simp add: s last_rev hd_dropWhile)
  obtain ys where ys: "rev ?a = ys @ ?b"
    by (metis takeWhile_dropWhile_id)
  then have "?a = rev ?b @ rev ys" by (metis rev_append rev_rev_ident)
  moreover from b have "rev ?b \<noteq> []" by simp
  ultimately have "hd ?a = hd (rev ?b)" by (metis hd_append2)
  then have "hd (strip s) = hd ?a" by (simp only: s)
  moreover have "\<not> is_space (hd ?a)" using a by (rule hd_dropWhile)
  ultimately show ?thesis using l by (simp add: trimmed_def)
qed

lemma sub_newlines_no_newline: "CHR 0x0A \<notin> set (sub_newlines s)"
  by (induction s rule: sub_newlines.induct) auto

lemma sub_newlines_id: "CHR 0x0A \<notin> set s \<Longrightarrow> sub_newlines s = s"
  by (induction s) auto

lemma sub_newlines_snoc:
  "c \<noteq> CHR 0x0A \<Longrightarrow> sub_newlines (s @ [c]) = sub_newlines s @ [c]"
proof (induction s rule: sub_newlines.induct)
  case 1
  then show ?case by simp
next
  case (2 d ds)
  show ?case
  proof (cases "d = CHR 0x0A")
    case True
    have "dropWhile (\<lambda>x. x = CHR 0x0A) (ds @ [c]) = dropWhile (\<lambda>x. x = CHR 0x0A) ds @ [c]"
      using 2(3) by (induction ds) auto
    with True 2 show ?thesis by simp
  next
    case False
    with 2 show ?thesis by simp
  qed
qed

lemma trimmed_sub_newlines: "trimmed s \<Longrightarrow> trimmed (sub_newlines s)"
proof (cases "s = []")
  case True
  then show ?thesis by (simp add: trimmed_def)
next
  case False
  assume t: "trimmed s"
  with False have h: "\<not> is_space (hd s)" and l: "\<not> is_space (last s)"
    by (simp_all add: trimmed_def)
  from False obtain c cs where s: "s = c # cs" by (cases s) auto
  from False obtain bs e where s': "s = bs @ [e]" by (metis append_butlast_last_id)
  from h s have c: "c \<noteq> CHR 0x0A" by auto
  from l s' have e: "e \<noteq> CHR 0x0A" by auto
  have "sub_newlines s = c # sub_newlines cs" using c s by simp
  then have 1: "sub_newlines s \<noteq> []" "hd (sub_newlines s) = hd s" using s by simp_all
  have "sub_newlines s = sub_newlines bs @ [e]" using e s' by (simp add: sub_newlines_snoc)
  then have 2: "last (sub_newlines s) = last s" using s' by simp
  from 1 2 h l show ?thesis by (simp add: trimmed_def)
qed

lemma expandtabs_from_snoc:
  "c \<noteq> CHR 0x09 \<Longrightarrow> expandtabs_from n (s @ [c]) = expandtabs_from n s @ [c]"
  by (induction s arbitrary: n) auto

lemma munge_hd: "s \<noteq> [] \<Longrightarrow> \<not> is_space (hd s) \<Longrightarrow>
  munge_whitespace s \<noteq> [] \<and> hd (munge_whitespace s) = hd s"
  by (cases s) (auto simp: munge_whitespace_def expandtabs_def)

lemma munge_last: "s \<noteq> [] \<Longrightarrow> \<not> is_space (last s) \<Longrightarrow> last (munge_whitespace s) = last s"
proof -
  assume "s \<noteq> []" and l: "\<not> is_space (last s)"
  then obtain bs e where s: "s = bs @ [e]" by (metis append_butlast_last_id)
  with l have "e \<noteq> CHR 0x09" by auto
  then show ?thesis using l s
    by (simp add: munge_whitespace_def expandtabs_def expandtabs_from_snoc)
qed

lemma trimmed_munge: "trimmed s \<Longrightarrow> trimmed (munge_whitespace s)"
proof (cases "s = []")
  case True
  then show ?thesis by (simp add: trimmed_def munge_whitespace_def expandtabs_def)
next
  case False
  assume "trimmed s"
  with False have h: "\<not> is_space (hd s)" and l: "\<not> is_space (last s)"
    by (simp_all add: trimmed_def)
  from munge_hd[OF False h] munge_last[OF False l] h l show ?thesis
    by (simp add: trimmed_def)
qed

lemma spaced_munge: "spaced (munge_whitespace s)"
  by (auto simp: spaced_def munge_whitespace_def)

lemma expandtabs_from_id: "CHR 0x09 \<notin> set s \<Longrightarrow> expandtabs_from n s = s"
  by (induction s arbitrary: n) auto

lemma spaced_no_tab: "spaced s \<Longrightarrow> CHR 0x09 \<notin> set s"
proof
  assume "spaced s" and "CHR 0x09 \<in> set s"
  then have "is_space CHR 0x09 \<longrightarrow> CHR 0x09 = CHR '' ''"
    unfolding spaced_def by blast
  then show False by simp
qed

lemma spaced_no_newline: "spaced s \<Longrightarrow> CHR 0x0A \<notin> set s"
proof
  assume "spaced s" and "CHR 0x0A \<in> set s"
  then have "is_space CHR 0x0A \<longrightarrow> CHR 0x0A = CHR '' ''"
    unfolding spaced_def by blast
  then show False by simp
qed

lemma munge_id: "spaced s \<Longrightarrow> munge_whitespace s = s"
proof -
  assume s: "spaced s"
  then have "expandtabs s = s" by (simp add: expandtabs_def expandtabs_from_id spaced_no_tab)
  moreover have "map (\<lambda>c. if is_space c then CHR '' '' else c) s = s"
    using s unfolding spaced_def by (intro map_idI) auto
  ultimately show ?thesis by (simp add: munge_whitespace_def)
qed

lemma dropWhile_trimmed:
  assumes "trimmed t"
  shows "dropWhile is_space t = t" and "dropWhile is_space (rev t) = rev t"
proof -
  show "dropWhile is_space t = t"
    using assms by (cases t) (auto simp: trimmed_def)
  show "dropWhile is_space (rev t) = rev t"
  proof (cases "t = []")
    case True
    then show ?thesis by simp
  next
    case False
    with assms have "\<not> is_space (last t)" by (simp add: trimmed_def)
    with False have "\<not> is_space (hd (rev t))" by (simp add: hd_rev)
    with False show ?thesis by (cases "rev t") auto
  qed
qed

lemma strip_trimmed: "trimmed t \<Longrightarrow> strip t = t"
  by (simp add: strip_def dropWhile_trimmed)

lemma strip_indented:
  assumes "trimmed t" and "t \<noteq> []"
  shows "strip (''\<newline>   '' @ t) = t"
proof -
  from assms have "\<not> is_space (hd t)" by (simp add: trimmed_def)
  with assms(2) have "dropWhile is_space (''\<newline>   '' @ t) = t"
    by (cases t) auto
  then show ?thesis
    by (simp add: strip_def dropWhile_trimmed(2)[OF assms(1)])
qed


subsection \<open>Chunks\<close>

lemma concat_flush [simp]: "concat (flush pending) = pending"
  by (simp add: flush_def)

lemma split_from_concat: "concat (split_from prev pending s) = pending @ s"
proof (induction prev pending s rule: split_from.induct)
  case (1 prev pending)
  then show ?case by simp
next
  case (2 prev pending c cs)
  show ?case
  proof (cases "sep_match prev (c # cs)")
    case None
    with 2(1) show ?thesis by simp
  next
    case (Some n)
    with 2(2) show ?thesis by simp
  qed
qed

lemma split_from_no_empty: "[] \<notin> set (split_from prev pending s)"
proof (induction prev pending s rule: split_from.induct)
  case (1 prev pending)
  then show ?case by (simp add: flush_def)
next
  case (2 prev pending c cs)
  show ?case
  proof (cases "sep_match prev (c # cs)")
    case None
    with 2(1) show ?thesis by simp
  next
    case (Some n)
    with 2(2) show ?thesis by (simp add: flush_def)
  qed
qed

lemma split_from_last:
  "pending @ s \<noteq> [] \<Longrightarrow>
     split_from prev pending s \<noteq> [] \<and> last (last (split_from prev pending s)) = last (pending @ s)"
proof (induction prev pending s rule: split_from.induct)
  case (1 prev pending)
  then show ?case by (simp add: flush_def)
next
  case (2 prev pending c cs)
  show ?case
  proof (cases "sep_match prev (c # cs)")
    case None
    with 2(1) show ?thesis by simp
  next
    case (Some n)
    show ?thesis
    proof (cases "drop (n - 1) cs = []")
      case True
      then have "split_from (Some (last (c # take (n - 1) cs))) [] (drop (n - 1) cs) = []"
        by (simp add: flush_def)
      with Some True show ?thesis by simp
    next
      case False
      then have "cs \<noteq> []" by auto
      with False 2(2)[OF Some] Some show ?thesis
        by (simp add: last_drop)
    qed
  qed
qed

lemma blank_iff: "blank c \<longleftrightarrow> (\<forall>x \<in> set c. is_space x)"
proof
  assume "blank c"
  then have a: "\<forall>x \<in> set (dropWhile is_space c). is_space x"
    by (simp add: blank_def strip_def dropWhile_eq_Nil_conv)
  have "dropWhile is_space c = []"
  proof (rule ccontr)
    assume n: "dropWhile is_space c \<noteq> []"
    then have "\<not> is_space (hd (dropWhile is_space c))" by (rule hd_dropWhile)
    moreover from n have "hd (dropWhile is_space c) \<in> set (dropWhile is_space c)" by simp
    ultimately show False using a by blast
  qed
  then show "\<forall>x \<in> set c. is_space x"
    by (simp add: dropWhile_eq_Nil_conv)
next
  assume "\<forall>x \<in> set c. is_space x"
  then have "dropWhile is_space c = []"
    by (simp add: dropWhile_eq_Nil_conv)
  then have "strip c = []" by (simp only: strip_def) simp
  then show "blank c" by (simp only: blank_def)
qed

lemma chunks_of_trimmed:
  assumes "trimmed t" and "t \<noteq> []"
  shows "split_chunks t \<noteq> []" and "[] \<notin> set (split_chunks t)" and "concat (split_chunks t) = t"
    and "\<not> blank (last (split_chunks t))"
proof -
  from split_from_last[of "[]" t None] assms(2)
  have l: "split_chunks t \<noteq> []" "last (last (split_chunks t)) = last t"
    by (simp_all add: split_chunks_def)
  show "split_chunks t \<noteq> []" by (rule l(1))
  show ne: "[] \<notin> set (split_chunks t)"
    by (simp add: split_chunks_def split_from_no_empty)
  show "concat (split_chunks t) = t"
    by (simp add: split_chunks_def split_from_concat)
  from l(1) ne have "last (split_chunks t) \<noteq> []"
    by (metis last_in_set)
  then have "last (last (split_chunks t)) \<in> set (last (split_chunks t))"
    by simp
  moreover from assms have "\<not> is_space (last t)" by (simp add: trimmed_def)
  ultimately show "\<not> blank (last (split_chunks t))"
    using l(2) by (auto simp: blank_iff)
qed

subsection \<open>A text that fits on one line\<close>

lemma fill_line_all:
  "cur_len + int (length (concat chunks)) \<le> width \<Longrightarrow>
     fill_line width cur_line cur_len chunks =
       (cur_line @ chunks, cur_len + int (length (concat chunks)), [])"
  by (induction chunks arbitrary: cur_line cur_len) auto

lemma next_line_all:
  assumes "chunks \<noteq> []" and "int (length (concat chunks)) \<le> wd - 3"
    and "\<not> blank (last chunks)"
  shows "next_line wd False chunks = (Some (''   '' @ concat chunks), [])"
proof -
  from assms(1) have d: "drop_leading False chunks = chunks"
    by (cases chunks) auto
  have f: "fill_line (wd - 3) [] 0 chunks = (chunks, int (length (concat chunks)), [])"
    using fill_line_all[of 0 chunks "wd - 3" "[]"] assms(2) by simp
  have t: "drop_trailing chunks = chunks"
    using assms(3) by (simp add: drop_trailing_def)
  show ?thesis
    using assms(1) by (simp add: next_line_def Let_def d f t)
qed

lemma wrap_chunks_all:
  assumes "chunks \<noteq> []" and "int (length (concat chunks)) \<le> wd - 3"
    and "\<not> blank (last chunks)"
  shows "wrap_chunks wd chunks [] = Inr [''   '' @ concat chunks]"
proof -
  have "wrap_chunks wd chunks [] = wrap_chunks wd [] [''   '' @ concat chunks]"
    using assms(1) by (subst wrap_chunks.simps) (simp add: next_line_all[OF assms])
  also have "\<dots> = Inr [''   '' @ concat chunks]"
    by (subst wrap_chunks.simps) simp
  finally show ?thesis .
qed

lemma split_chunks_Nil: "split_chunks [] = []"
  by (simp add: split_chunks_def flush_def)

lemma wrap_fits:
  assumes "trimmed t" and "spaced t" and "int (length t) \<le> wd - 3"
  shows "wrap wd t = Inr (if t = [] then [] else [''   '' @ t])"
proof -
  from assms(3) have p: "\<not> wd \<le> 0" by simp
  show ?thesis
  proof (cases "t = []")
    case True
    have "wrap_chunks wd [] [] = Inr []"
      by (subst wrap_chunks.simps) simp
    with p True show ?thesis
      by (simp add: wrap_def Let_def munge_whitespace_def expandtabs_def split_chunks_Nil)
  next
    case False
    note c = chunks_of_trimmed[OF assms(1) False]
    from assms(3) c(3) have "int (length (concat (split_chunks t))) \<le> wd - 3" by simp
    from wrap_chunks_all[OF c(1) this c(4)] p False show ?thesis
      by (simp add: wrap_def Let_def munge_id[OF assms(2)] c(3))
  qed
qed


lemma wrap_munged: "wrap wd (munge_whitespace x) = wrap wd x"
  by (simp add: wrap_def munge_id[OF spaced_munge])

lemma stripjoin_fits:
  assumes "trimmed x" and "int (length (munge_whitespace (sub_newlines x))) \<le> wd - 3"
  shows "stripjoin wd (JStr x) = Inr (one_line (munge_whitespace (sub_newlines x)))"
proof -
  let ?t = "munge_whitespace (sub_newlines x)"
  have t: "trimmed ?t" "spaced ?t"
    using assms(1) by (simp_all add: trimmed_munge trimmed_sub_newlines spaced_munge)
  have "wrap wd (sub_newlines x) = wrap wd ?t"
    by (simp add: wrap_munged)
  also have "\<dots> = Inr (if ?t = [] then [] else [''   '' @ ?t])"
    using t assms(2) by (rule wrap_fits)
  finally have w: "wrap wd (sub_newlines x) = Inr (if ?t = [] then [] else [''   '' @ ?t])" .
  from assms(2) have "wd \<noteq> 0" by auto
  then show ?thesis
    by (simp add: stripjoin_def Let_def strip_trimmed[OF assms(1)] w one_line_def)
qed

lemma one_line_again:
  assumes "trimmed t" and "spaced t"
  shows "trimmed (strip (one_line t))"
    and "munge_whitespace (sub_newlines (strip (one_line t))) = t"
proof -
  have s: "strip (one_line t) = t"
  proof (cases "t = []")
    case True
    then show ?thesis by (simp add: one_line_def strip_def)
  next
    case False
    with strip_indented[OF assms(1) False] show ?thesis by (simp add: one_line_def)
  qed
  show "trimmed (strip (one_line t))" by (rule trimmed_strip)
  show "munge_whitespace (sub_newlines (strip (one_line t))) = t"
    by (simp add: s sub_newlines_id spaced_no_newline[OF assms(2)] munge_id[OF assms(2)])
qed

subsection \<open>The lines of chunks whose words fit\<close>

lemma takeWhile_gap:
  "gap b \<Longrightarrow> rest = [] \<or> \<not> is_space (hd rest) \<Longrightarrow> takeWhile is_space (b @ rest) = b"
  by (cases rest) (auto simp: gap_def)

lemma sep_match_gap:
  assumes "gap b" and "rest = [] \<or> \<not> is_space (hd rest)"
  shows "sep_match prev (b @ rest) = Some (length b)"
proof -
  from assms(1) have "b \<noteq> []" by (simp add: gap_def)
  with takeWhile_gap[OF assms] show ?thesis
    by (cases b) (auto simp: sep_match_def ws_match_def split: list.splits)
qed

lemma split_from_gap:
  assumes "gap b" and "rest = [] \<or> \<not> is_space (hd rest)"
  shows "split_from prev pending (b @ rest) = flush pending @ b # split_from (Some (last b)) [] rest"
proof -
  from assms(1) obtain c b' where b: "b = c # b'" by (cases b) (auto simp: gap_def)
  have "sep_match prev (c # b' @ rest) = Some (length b)"
    using sep_match_gap[OF assms, of prev] by (simp add: b)
  then show ?thesis by (simp add: b)
qed

lemma wordy_hd: "wordy c \<Longrightarrow> \<not> is_space (hd c)"
  by (cases c) (auto simp: wordy_def)

lemma wordy_not_gap: "wordy c \<Longrightarrow> \<not> gap c"
  by (auto simp: wordy_def gap_def)

lemma fill_line_props:
  assumes "fill_line width cl n cs = (cl', n', rest)"
  shows "cl @ cs = cl' @ rest" and "n' = n + int (length (concat (drop (length cl) cl')))"
    and "rest \<noteq> [] \<Longrightarrow> n' + int (length (hd rest)) > width"
    and "length cl \<le> length cl'"
  using assms
proof (induction cs arbitrary: cl n)
  case Nil
  {
    case 1 then show ?case by simp
  next
    case 2 then show ?case by simp
  next
    case 3 then show ?case by simp
  next
    case 4 then show ?case by simp
  }
next
  case (Cons c cs)
  {
    case 1
    then show ?case using Cons.IH(1)[of "cl @ [c]" "n + int (length c)"]
      by (auto split: if_splits)
  next
    case 2
    show ?case
    proof (cases "n + int (length c) \<le> width")
      case True
      with 2 have f: "fill_line width (cl @ [c]) (n + int (length c)) cs = (cl', n', rest)" by simp
      from Cons.IH(1)[OF f] have e: "cl @ [c] @ cs = cl' @ rest" by simp
      from Cons.IH(4)[OF f] have l: "Suc (length cl) \<le> length cl'" by simp
      from e l have "cl' ! length cl = c"
        by (metis append_Cons nth_append_length nth_append length_append_singleton less_eq_Suc_le append.assoc)
      with l have "drop (length cl) cl' = c # drop (Suc (length cl)) cl'"
        by (metis Cons_nth_drop_Suc less_eq_Suc_le)
      with Cons.IH(2)[OF f] show ?thesis by simp
    next
      case False
      with 2 show ?thesis by simp
    qed
  next
    case 3
    then show ?case using Cons.IH(3)[of "cl @ [c]" "n + int (length c)"]
      by (auto split: if_splits)
  next
    case 4
    then show ?case using Cons.IH(4)[of "cl @ [c]" "n + int (length c)"]
      by (auto split: if_splits)
  }
qed

lemma set_drop_leading: "set (drop_leading st chunks) \<subseteq> set chunks"
  by (cases chunks) auto

lemma fill_rest_subset:
  assumes "fill_line width [] 0 (drop_leading st chunks) = (cl, n, rest)"
  shows "set rest \<subseteq> set chunks" and "set cl \<subseteq> set chunks"
proof -
  from fill_line_props(1)[OF assms] have "drop_leading st chunks = cl @ rest" by simp
  then have "set rest \<subseteq> set (drop_leading st chunks)" "set cl \<subseteq> set (drop_leading st chunks)"
    by auto
  with set_drop_leading[of st chunks] show "set rest \<subseteq> set chunks" "set cl \<subseteq> set chunks"
    by auto
qed

lemma chunky_Cons: "chunky (c # cs) \<Longrightarrow> chunky cs"
  by (cases cs) auto

lemma chunky_appendD: "chunky (xs @ ys) \<Longrightarrow> chunky xs \<and> chunky ys"
proof (induction xs rule: chunky.induct)
  case 1
  then show ?case by simp
next
  case (2 c)
  then show ?case by (cases ys) (auto dest: chunky_Cons)
next
  case (3 c d cs)
  then show ?case by auto
qed

lemma chunky_adjacent:
  "chunky (xs @ ys) \<Longrightarrow> xs \<noteq> [] \<Longrightarrow> ys \<noteq> [] \<Longrightarrow>
     wordy (last xs) \<or> wordy (hd ys)"
proof (induction xs rule: chunky.induct)
  case 1
  then show ?case by simp
next
  case (2 c)
  then show ?case by (cases ys) auto
next
  case (3 c d cs)
  then show ?case by auto
qed

lemma chunky_member: "chunky cs \<Longrightarrow> c \<in> set cs \<Longrightarrow> wordy c \<or> gap c"
  by (induction cs rule: chunky.induct) auto

lemma blank_gap: "gap c \<Longrightarrow> blank c"
  by (simp add: gap_def blank_iff)

lemma wordy_not_blank: "wordy c \<Longrightarrow> \<not> blank c"
  by (cases c) (auto simp: wordy_def blank_iff)

lemma fill_line_append:
  "n + int (length (concat xs)) \<le> wid \<Longrightarrow>
     fill_line wid cl n (xs @ ys) = fill_line wid (cl @ xs) (n + int (length (concat xs))) ys"
proof (induction xs arbitrary: cl n)
  case Nil
  then show ?case by simp
next
  case (Cons x xs)
  then have "n + int (length x) \<le> wid" by simp
  moreover have "fill_line wid (cl @ [x]) (n + int (length x)) (xs @ ys) =
      fill_line wid ((cl @ [x]) @ xs) (n + int (length x) + int (length (concat xs))) ys"
    using Cons.prems by (intro Cons.IH) simp
  ultimately show ?case by (simp add: add.assoc)
qed

lemma fill_line_bound:
  "fill_line wid cl n cs = (cl', n', rest) \<Longrightarrow> n \<le> wid \<Longrightarrow> n' \<le> wid"
  by (induction cs arbitrary: cl n) (auto split: if_splits)

lemma drop_leading_wordy: "cs \<noteq> [] \<Longrightarrow> wordy (hd cs) \<Longrightarrow> drop_leading st cs = cs"
  by (cases cs) (auto simp: wordy_not_blank)

lemma drop_trailing_wordy: "l \<noteq> [] \<Longrightarrow> wordy (last l) \<Longrightarrow> drop_trailing l = l"
  by (simp add: drop_trailing_def wordy_not_blank)

lemma lines_of_Nil: "lines_of wid st [] = []"
  by (subst lines_of.simps) simp

lemma lines_of_shape:
  assumes "shape wid l"
  shows "lines_of wid st l = [l]"
proof -
  from assms have l: "l \<noteq> []" "wordy (hd l)" "wordy (last l)" "int (length (concat l)) \<le> wid"
    by (simp_all add: shape_def)
  have f: "fill_line wid [] 0 l = (l, int (length (concat l)), [])"
    using fill_line_all[of 0 l wid "[]"] l(4) by simp
  show ?thesis
    using l(1)
    by (subst lines_of.simps)
       (simp add: drop_leading_wordy[OF l(1,2)] f drop_trailing_wordy[OF l(1,3)] lines_of_Nil)
qed

lemma first_line:
  assumes v: "valid wid st cs" and ne: "drop_leading st cs \<noteq> []"
    and f: "fill_line wid [] 0 (drop_leading st cs) = (cl, n, rest)"
  shows "wordy (hd (drop_leading st cs))" and "cl \<noteq> []" and "hd cl = hd (drop_leading st cs)"
    and "chunky cl" and "chunky rest" and "n = int (length (concat cl))" and "n \<le> wid"
    and "drop_leading st cs = cl @ rest" and "length rest < length cs" and "1 \<le> wid"
proof -
  let ?cs1 = "drop_leading st cs"
  from v have a: "chunky cs" and fits: "\<forall>c \<in> set cs. wordy c \<longrightarrow> int (length c) \<le> wid"
    and first: "st \<or> cs = [] \<or> wordy (hd cs)"
    by (simp_all add: valid_def)
  from ne obtain c cs' where cs: "cs = c # cs'" by (cases cs) auto
  from a cs have wg: "wordy c \<or> gap c" using chunky_member[of cs c] by simp
  show hw: "wordy (hd ?cs1)"
  proof (cases "blank c \<and> st")
    case True
    with cs ne have 1: "?cs1 = cs'" "cs' \<noteq> []" by auto
    from True wg have "gap c" by (auto simp: wordy_not_blank)
    with a cs 1(2) chunky_adjacent[of "[c]" cs'] have "wordy (hd cs')"
      by (auto simp: wordy_not_gap)
    with 1 show ?thesis by simp
  next
    case False
    with cs have 1: "?cs1 = cs" by auto
    from False first cs wg have "wordy c" by (auto simp: blank_gap)
    with 1 cs show ?thesis by simp
  qed
  from ne obtain c1 cs1' where c1: "?cs1 = c1 # cs1'" by (cases ?cs1) auto
  have sub: "set ?cs1 \<subseteq> set cs" by (rule set_drop_leading)
  with fits c1 hw have fit1: "0 + int (length c1) \<le> wid" by auto
  with f c1 have f1: "fill_line wid [c1] (int (length c1)) cs1' = (cl, n, rest)" by simp
  from fill_line_props(1,4)[OF f1] have e: "c1 # cs1' = cl @ rest" and l: "1 \<le> length cl"
    by simp_all
  from l show cne: "cl \<noteq> []" by auto
  with e have "hd cl = c1" by (cases cl) auto
  with c1 show "hd cl = hd ?cs1" by simp
  from e c1 show split: "?cs1 = cl @ rest" by simp
  have "chunky ?cs1"
  proof (cases "?cs1 = cs")
    case True
    with a show ?thesis by simp
  next
    case False
    with cs have "?cs1 = cs'" by (auto split: if_splits)
    with a cs show ?thesis by (auto dest: chunky_Cons)
  qed
  with split chunky_appendD[of cl rest] show "chunky cl" "chunky rest" by simp_all
  from fill_line_props(2)[OF f] show "n = int (length (concat cl))" by simp
  from hw c1 have "c1 \<noteq> []" by (simp add: wordy_def)
  with fit1 have "0 \<le> wid" by (cases c1) auto
  with fill_line_bound[OF f] show "n \<le> wid" by simp
  from \<open>c1 \<noteq> []\<close> fit1 show "1 \<le> wid" by (cases c1) auto
  from split cne have "length rest < length ?cs1" by (cases cl) auto
  moreover have "length ?cs1 \<le> length cs" by (cases cs) auto
  ultimately show "length rest < length cs" by linarith
qed

lemma trailing_line:
  assumes "cl \<noteq> []" and "wordy (hd cl)" and "chunky cl" and "int (length (concat cl)) \<le> wid"
  shows "shape wid (drop_trailing cl)" and "hd (drop_trailing cl) = hd cl"
    and "blank (last cl) \<Longrightarrow> cl = drop_trailing cl @ [last cl] \<and> gap (last cl)"
    and "\<not> blank (last cl) \<Longrightarrow> drop_trailing cl = cl \<and> wordy (last cl)"
proof -
  from assms(1,3) have wg: "wordy (last cl) \<or> gap (last cl)"
    using chunky_member[of cl "last cl"] by simp
  {
    assume b: "blank (last cl)"
    with wg have g: "gap (last cl)" by (auto simp: wordy_not_blank)
    have d: "drop_trailing cl = butlast cl" using assms(1) b by (simp add: drop_trailing_def)
    have bne: "butlast cl \<noteq> []"
    proof
      assume "butlast cl = []"
      with assms(1) have "cl = [last cl]" by (metis append_butlast_last_id append_Nil)
      then have "hd cl = last cl" by (metis list.sel(1))
      with assms(2) g show False by (simp add: wordy_not_gap)
    qed
    have e: "cl = butlast cl @ [last cl]" using assms(1) by simp
    with assms(3) have ab: "chunky (butlast cl @ [last cl])" by simp
    from chunky_adjacent[OF ab bne] g have lw: "wordy (last (butlast cl))"
      by (auto simp: wordy_not_gap)
    from chunky_appendD[OF ab] have "chunky (butlast cl)" by simp
    moreover have "hd (butlast cl) = hd cl" using bne e by (metis hd_append2)
    moreover have "int (length (concat (butlast cl))) \<le> wid"
    proof -
      have "concat cl = concat (butlast cl) @ last cl" using e by (metis concat_append concat.simps append_Nil2)
      then have "length (concat (butlast cl)) \<le> length (concat cl)" by simp
      with assms(4) show ?thesis by linarith
    qed
    ultimately have "shape wid (butlast cl)" "hd (butlast cl) = hd cl"
      using bne lw assms(2) by (simp_all add: shape_def)
    with d e g have "shape wid (drop_trailing cl)" "hd (drop_trailing cl) = hd cl"
      "cl = drop_trailing cl @ [last cl] \<and> gap (last cl)"
      by simp_all
  }
  note blank_case = this
  {
    assume nb: "\<not> blank (last cl)"
    with wg have lw: "wordy (last cl)" by (auto simp: blank_gap)
    have d: "drop_trailing cl = cl" using nb by (simp add: drop_trailing_def)
    with assms lw have "shape wid (drop_trailing cl)" "hd (drop_trailing cl) = hd cl"
      "drop_trailing cl = cl \<and> wordy (last cl)"
      by (simp_all add: shape_def)
  }
  note word_case = this
  show "shape wid (drop_trailing cl)"
    using blank_case(1) word_case(1) by blast
  show "hd (drop_trailing cl) = hd cl"
    using blank_case(2) word_case(2) by blast
  show "blank (last cl) \<Longrightarrow> cl = drop_trailing cl @ [last cl] \<and> gap (last cl)"
    using blank_case(3) by blast
  show "\<not> blank (last cl) \<Longrightarrow> drop_trailing cl = cl \<and> wordy (last cl)"
    using word_case(3) by blast
qed

lemma valid_rest:
  assumes "valid wid st cs" and "fill_line wid [] 0 (drop_leading st cs) = (cl, n, rest)"
    and "chunky rest"
  shows "valid wid True rest"
  using assms fill_rest_subset(1)[OF assms(2)] by (auto simp: valid_def)

lemma blank_take: "gap g \<Longrightarrow> blank (take k g)"
  by (auto simp: gap_def blank_iff dest: in_set_takeD)

lemma blank_drop: "gap g \<Longrightarrow> blank (drop k g)"
  by (auto simp: gap_def blank_iff dest: in_set_dropD)

lemma next_line_blank_head:
  "blank g \<Longrightarrow> blank g' \<Longrightarrow> next_line wd True (g # X) = next_line wd True (g' # X)"
  by (simp add: next_line_def)

lemma next_line_rest_weight:
  assumes "next_line wd st chunks = (l, chunks')"
  shows "weight chunks' \<le> weight (drop_leading st chunks)"
proof -
  obtain cl n cs2 where fl: "fill_line (wd - 3) [] 0 (drop_leading st chunks) = (cl, n, cs2)"
    by (metis prod_cases3)
  obtain cs3 cl3 where tl: "too_long (wd - 3) cl n cs2 = (cs3, cl3)"
    by fastforce
  have res: "chunks' = cs3"
    using assms fl tl by (simp add: next_line_def Let_def)
  from fill_line_weight[OF fl] too_long_weight[OF tl] res show ?thesis by auto
qed

lemma wrap_chunks_blank_head:
  assumes "blank g" and "blank g'" and "ls \<noteq> []"
  shows "wrap_chunks wd (g # X) ls = wrap_chunks wd (g' # X) ls"
proof -
  obtain l chunks' where n: "next_line wd True (g # X) = (l, chunks')"
    by fastforce
  with next_line_blank_head[OF assms(1,2), of wd X] have n': "next_line wd True (g' # X) = (l, chunks')"
    by simp
  from next_line_rest_weight[OF n] assms(1) have "weight chunks' \<le> weight X" by simp
  then have ne: "chunks' \<noteq> g # X" "chunks' \<noteq> g' # X"
    by (auto simp: weight_Cons)
  have "wrap_chunks wd (g # X) ls =
      wrap_chunks wd chunks' (case l of None \<Rightarrow> ls | Some s \<Rightarrow> ls @ [s])"
    using assms(3) ne by (subst wrap_chunks.simps) (simp add: n Let_def)
  moreover have "wrap_chunks wd (g' # X) ls =
      wrap_chunks wd chunks' (case l of None \<Rightarrow> ls | Some s \<Rightarrow> ls @ [s])"
    using assms(3) ne by (subst wrap_chunks.simps) (simp add: n' Let_def)
  ultimately show ?thesis by simp
qed

text \<open>One round on chunks whose words fit: the line, and the chunks left up to a blank head.\<close>

lemma next_line_valid:
  assumes v: "valid (wd - 3) st cs" and ne: "drop_leading st cs \<noteq> []"
    and f: "fill_line (wd - 3) [] 0 (drop_leading st cs) = (cl, n, rest)"
  shows "\<exists>rest'. next_line wd st cs = (Some (''   '' @ concat (drop_trailing cl)), rest') \<and>
           (rest' = rest \<or> (\<exists>g g' X. rest = g # X \<and> rest' = g' # X \<and> blank g \<and> blank g'))"
proof -
  note fl = first_line[OF v ne f]
  have hw: "wordy (hd cl)" using fl(1,3) by simp
  have sum: "int (length (concat cl)) \<le> wd - 3" using fl(6,7) by simp
  note tr = trailing_line[OF fl(2) hw fl(4) sum]
  from tr(1) have lne: "drop_trailing cl \<noteq> []" by (simp add: shape_def)
  show ?thesis
  proof (cases "rest = [] \<or> int (length (hd rest)) \<le> wd - 3")
    case True
    then have "too_long (wd - 3) cl n rest = (rest, cl)" by (cases rest) auto
    then show ?thesis using lne by (simp add: next_line_def Let_def f)
  next
    case False
    then obtain g X where r: "rest = g # X" and long: "int (length g) > wd - 3"
      by (cases rest) auto
    from v have a: "chunky cs" and fits: "\<forall>c \<in> set cs. wordy c \<longrightarrow> int (length c) \<le> wd - 3"
      by (simp_all add: valid_def)
    have "g \<in> set cs" using fill_rest_subset(1)[OF f] r by auto
    with fits long have "\<not> wordy g" by auto
    moreover have "wordy g \<or> gap g" using \<open>g \<in> set cs\<close> a by (rule chunky_member[rotated])
    ultimately have g: "gap g" by simp
    have "chunky (cl @ rest)" using fl(8) v ne
      by (cases cs) (auto simp: valid_def dest: chunky_Cons split: if_splits)
    from chunky_adjacent[OF this fl(2)] r g have lw: "wordy (last cl)"
      by (auto simp: wordy_not_gap)
    then have dt: "drop_trailing cl = cl" using fl(2) drop_trailing_wordy by simp
    let ?k = "wd - 3 - n"
    have k: "0 \<le> ?k" using fl(7) by simp
    have t: "too_long (wd - 3) cl n rest = (drop (nat ?k) g # X, cl @ [take (nat ?k) g])"
      using long fl(10) k by (simp add: r Let_def slice_from_def slice_to_def)
    have d2: "drop_trailing (cl @ [take (nat ?k) g]) = cl"
      using blank_take[OF g] by (simp add: drop_trailing_def)
    have "next_line wd st cs = (Some (''   '' @ concat cl), drop (nat ?k) g # X)"
      using fl(2) by (simp add: next_line_def Let_def f t d2)
    with dt r blank_gap[OF g] blank_drop[OF g] show ?thesis by auto
  qed
qed

lemma wrap_chunks_lines_of:
  "valid (wd - 3) (ls \<noteq> []) chunks \<Longrightarrow>
     wrap_chunks wd chunks ls =
       Inr (ls @ map (\<lambda>l. ''   '' @ concat l) (lines_of (wd - 3) (ls \<noteq> []) chunks))"
proof (induction "length chunks" arbitrary: chunks ls rule: less_induct)
  case less
  note v = less.prems
  show ?case
  proof (cases "chunks = []")
    case True
    then show ?thesis
      by (subst wrap_chunks.simps, subst lines_of.simps) simp
  next
    case cne: False
    let ?cs1 = "drop_leading (ls \<noteq> []) chunks"
    obtain cl n rest where f: "fill_line (wd - 3) [] 0 ?cs1 = (cl, n, rest)"
      by (metis prod_cases3)
    show ?thesis
    proof (cases "?cs1 = []")
      case True
      with f have e: "cl = []" "rest = []" by simp_all
      have n: "next_line wd (ls \<noteq> []) chunks = (None, [])"
        by (simp add: next_line_def Let_def True drop_trailing_def)
      have 1: "wrap_chunks wd chunks ls = wrap_chunks wd [] ls"
        using cne by (subst wrap_chunks.simps) (simp add: n)
      have 2: "wrap_chunks wd [] ls = Inr ls"
        by (subst wrap_chunks.simps) simp
      have 3: "lines_of (wd - 3) (ls \<noteq> []) chunks = []"
        using cne by (subst lines_of.simps) (simp add: True lines_of_Nil drop_trailing_def)
      show ?thesis by (simp add: 1 2 3)
    next
      case c1ne: False
      note fl = first_line[OF v c1ne f]
      have hw: "wordy (hd cl)" using fl(1,3) by simp
      have sum: "int (length (concat cl)) \<le> wd - 3" using fl(6,7) by simp
      note tr = trailing_line[OF fl(2) hw fl(4) sum]
      let ?line = "drop_trailing cl"
      from tr(1) have lne: "?line \<noteq> []" by (simp add: shape_def)
      let ?ls' = "ls @ [''   '' @ concat ?line]"
      from fl(9) have rne: "rest \<noteq> chunks" by auto
      have vr: "valid (wd - 3) (?ls' \<noteq> []) rest"
        using valid_rest[OF v f fl(5)] by simp
      have ih: "wrap_chunks wd rest ?ls' =
          Inr (?ls' @ map (\<lambda>l. ''   '' @ concat l) (lines_of (wd - 3) (?ls' \<noteq> []) rest))"
        by (rule less.hyps[OF fl(9) vr])
      from next_line_valid[OF v c1ne f] obtain rest' where
        n: "next_line wd (ls \<noteq> []) chunks = (Some (''   '' @ concat ?line), rest')"
        and r: "rest' = rest \<or> (\<exists>g g' X. rest = g # X \<and> rest' = g' # X \<and> blank g \<and> blank g')"
        by blast
      have "wrap_chunks wd chunks ls = wrap_chunks wd rest' ?ls'"
        using cne by (subst wrap_chunks.simps) (simp add: n)
      also have "\<dots> = wrap_chunks wd rest ?ls'"
        using r wrap_chunks_blank_head[of _ _ ?ls' wd] by auto
      finally have w: "wrap_chunks wd chunks ls = wrap_chunks wd rest ?ls'" .
      have l: "lines_of (wd - 3) (ls \<noteq> []) chunks = ?line # lines_of (wd - 3) True rest"
        using cne rne lne by (subst lines_of.simps) (simp add: f)
      show ?thesis
        unfolding w ih l by simp
    qed
  qed
qed

subsection \<open>Wrapping lines that leave no room\<close>

lemma chunky_join:
  "chunky xs \<Longrightarrow> xs \<noteq> [] \<Longrightarrow> wordy (last xs) \<Longrightarrow> gap g \<Longrightarrow> chunky ys \<Longrightarrow>
     ys = [] \<or> wordy (hd ys) \<Longrightarrow> chunky (xs @ g # ys)"
proof (induction xs rule: chunky.induct)
  case 1
  then show ?case by simp
next
  case (2 c)
  then show ?case by (cases ys) auto
next
  case (3 c d cs)
  then show ?case by auto
qed

lemma chunk_length_le: "c \<in> set l \<Longrightarrow> length c \<le> length (concat l)"
  by (induction l) auto

lemma glue_valid:
  "\<forall>l \<in> set L. shape wid l \<Longrightarrow>
     chunky (glue L) \<and> (\<forall>c \<in> set (glue L). wordy c \<longrightarrow> int (length c) \<le> wid) \<and>
     (L \<noteq> [] \<longrightarrow> glue L \<noteq> [] \<and> hd (glue L) = hd (hd L) \<and> wordy (hd (glue L)))"
proof (induction L rule: glue.induct)
  case 1
  then show ?case by simp
next
  case (2 l)
  then have s: "shape wid l" by simp
  then have "\<forall>c \<in> set l. int (length c) \<le> wid"
    using chunk_length_le[of _ l] by (fastforce simp: shape_def)
  with s show ?case by (simp add: shape_def)
next
  case (3 l l' ls)
  from 3(2) have s: "shape wid l" and s': "\<forall>l \<in> set (l' # ls). shape wid l" by simp_all
  from 3(1)[OF s'] have ih: "chunky (glue (l' # ls))"
    "\<forall>c \<in> set (glue (l' # ls)). wordy c \<longrightarrow> int (length c) \<le> wid"
    "glue (l' # ls) \<noteq> []" "wordy (hd (glue (l' # ls)))"
    by blast+
  have g5: "gap ''     ''" by (simp add: gap_def)
  from s have l: "l \<noteq> []" "chunky l" "wordy (last l)" "wordy (hd l)" by (simp_all add: shape_def)
  have a: "chunky (l @ ''     '' # glue (l' # ls))"
    using l(2,1,3) g5 ih(1) ih(4) by (intro chunky_join) simp_all
  from s have "\<forall>c \<in> set l. int (length c) \<le> wid"
    using chunk_length_le[of _ l] by (fastforce simp: shape_def)
  with ih(2) g5 have b: "\<forall>c \<in> set (l @ ''     '' # glue (l' # ls)). wordy c \<longrightarrow> int (length c) \<le> wid"
    by (auto simp: wordy_not_gap)
  from a b l show ?case by simp
qed

lemma lines_of_leading_gap:
  assumes "gap g" and "X \<noteq> []" and "valid wid True X" and "wordy (hd X)"
  shows "lines_of wid True (g # X) = lines_of wid True X"
proof -
  obtain cl n rest where f: "fill_line wid [] 0 X = (cl, n, rest)"
    by (metis prod_cases3)
  have d: "drop_leading True X = X" using assms(2,4) by (rule drop_leading_wordy)
  from f d have f': "fill_line wid [] 0 (drop_leading True X) = (cl, n, rest)" by simp
  from d assms(2) have ne': "drop_leading True X \<noteq> []" by simp
  from first_line(9)[OF assms(3) ne' f'] have p: "length rest < length X" .
  then have ne: "rest \<noteq> X" "rest \<noteq> g # X" by auto
  have 1: "lines_of wid True (g # X) =
      (if drop_trailing cl \<noteq> [] then [drop_trailing cl] else []) @ lines_of wid True rest"
    using ne(2) by (subst lines_of.simps) (simp add: blank_gap[OF assms(1)] f)
  have 2: "lines_of wid True X =
      (if drop_trailing cl \<noteq> [] then [drop_trailing cl] else []) @ lines_of wid True rest"
    using ne(1) assms(2) by (subst lines_of.simps) (simp add: d f)
  from 1 2 show ?thesis by simp
qed

lemma longer_neq: "xs \<noteq> [] \<Longrightarrow> ys \<noteq> xs @ ys"
  by simp

lemma tight_Cons:
  "tight wid (l # L) \<longleftrightarrow>
     (L = [] \<or> wid < int (length (concat l)) + 5 + int (length (hd (hd L)))) \<and> tight wid L"
  by (cases L) auto

lemma lines_of_glue:
  "\<forall>P \<in> set Ps. shape wid P \<Longrightarrow> tight wid Ps \<Longrightarrow> lines_of wid st (glue Ps) = Ps"
proof (induction Ps arbitrary: st rule: glue.induct)
  case 1
  then show ?case by (simp add: lines_of_Nil)
next
  case (2 l)
  then show ?case by (simp add: lines_of_shape)
next
  case (3 l l' ls)
  from 3(2) have s: "shape wid l" and s': "\<forall>P \<in> set (l' # ls). shape wid P" by simp_all
  from 3(3) have over: "wid < int (length (concat l)) + 5 + int (length (hd l'))"
    and t': "tight wid (l' # ls)" by simp_all
  have ih: "lines_of wid True (glue (l' # ls)) = l' # ls"
    by (rule 3(1)[OF s' t'])
  let ?X = "glue (l' # ls)"
  have "l' # ls \<noteq> []" by simp
  with glue_valid[OF s'] have aX: "chunky ?X"
    and fX: "\<forall>c \<in> set ?X. wordy c \<longrightarrow> int (length c) \<le> wid"
    and Xne: "?X \<noteq> []" and hX: "hd ?X = hd (hd (l' # ls))" and dw: "wordy (hd ?X)"
    by blast+
  have vX: "valid wid True ?X" using aX fX by (simp add: valid_def)
  let ?m = "int (length (concat l))"
  from s have lne: "l \<noteq> []" and lsh: "wordy (hd l)" "wordy (last l)" "?m \<le> wid"
    by (simp_all add: shape_def)
  let ?c2 = "l @ ''     '' # ?X"
  have c2ne: "?c2 \<noteq> []" using lne by simp
  have hd2: "hd ?c2 = hd l" using lne by simp
  have dl: "drop_leading st ?c2 = ?c2"
    using c2ne lsh(1) hd2 by (intro drop_leading_wordy) simp_all
  have fa: "fill_line wid [] 0 ?c2 = fill_line wid l ?m (''     '' # ?X)"
    using fill_line_append[of 0 l wid "[]" "''     '' # ?X"] lsh(3) by simp
  have g5: "gap ''     ''" by (simp add: gap_def)
  have lt: "drop_trailing l = l"
    using lne lsh(2) by (rule drop_trailing_wordy)
  have "lines_of wid st ?c2 = l # l' # ls"
  proof (cases "?m + 5 \<le> wid")
    case False
    then have f2: "fill_line wid [] 0 ?c2 = (l, ?m, ''     '' # ?X)"
      by (simp add: fa)
    have ne2: "''     '' # ?X \<noteq> ?c2" using lne by (rule longer_neq)
    have "lines_of wid st ?c2 = l # lines_of wid True (''     '' # ?X)"
      using c2ne ne2 lne by (subst lines_of.simps) (simp add: dl f2 lt)
    also have "lines_of wid True (''     '' # ?X) = lines_of wid True ?X"
      using g5 Xne vX dw by (rule lines_of_leading_gap)
    finally show ?thesis by (simp only: ih)
  next
    case True
    from hX have hX': "hd ?X = hd l'" by simp
    obtain X' where X: "?X = hd l' # X'" using Xne hX' by (cases ?X) auto
    have f2': "fill_line wid l ?m (''     '' # hd l' # X') = (l @ [''     ''], ?m + 5, hd l' # X')"
      using True over by simp
    have f2: "fill_line wid [] 0 ?c2 = (l @ [''     ''], ?m + 5, ?X)"
      by (simp only: fa) (simp only: X f2')
    have "?X \<noteq> (l @ [''     '']) @ ?X"
      by (rule longer_neq) simp
    then have ne2: "?X \<noteq> ?c2" by simp
    have dt: "drop_trailing (l @ [''     '']) = l"
      using blank_gap[OF g5] by (simp add: drop_trailing_def)
    have "lines_of wid st ?c2 = l # lines_of wid True ?X"
      using c2ne ne2 lne by (subst lines_of.simps) (simp add: dl f2 dt)
    then show ?thesis by (simp only: ih)
  qed
  then show ?case by simp
qed

lemma first_pass:
  "valid wid st cs \<Longrightarrow> \<forall>c \<in> set cs. gap c \<longrightarrow> length c \<le> 5 \<Longrightarrow>
     (\<forall>l \<in> set (lines_of wid st cs). shape wid l \<and> (\<exists>pre post. cs = pre @ l @ post)) \<and>
     tight wid (lines_of wid st cs) \<and>
     (lines_of wid st cs \<noteq> [] \<longrightarrow> hd (hd (lines_of wid st cs)) = hd (drop_leading st cs))"
proof (induction "length cs" arbitrary: cs st rule: less_induct)
  case less
  note v = less.prems(1)
  note gaps = less.prems(2)
  show ?case
  proof (cases "drop_leading st cs = []")
    case True
    have "lines_of wid st cs = []"
    proof (cases "cs = []")
      case True
      then show ?thesis by (simp add: lines_of_Nil)
    next
      case False
      then show ?thesis
        by (subst lines_of.simps) (simp add: True lines_of_Nil drop_trailing_def)
    qed
    then show ?thesis by simp
  next
    case c1ne: False
    then have cne: "cs \<noteq> []" by auto
    let ?cs1 = "drop_leading st cs"
    obtain cl n rest where f: "fill_line wid [] 0 ?cs1 = (cl, n, rest)"
      by (metis prod_cases3)
    note fl = first_line[OF v c1ne f]
    from fl(9) have rne: "rest \<noteq> cs" by auto
    let ?line = "drop_trailing cl"
    have hw: "wordy (hd cl)" using fl(1,3) by simp
    have sum: "int (length (concat cl)) \<le> wid" using fl(6,7) by simp
    note tr = trailing_line[OF fl(2) hw fl(4) sum]
    from tr(1) have lne: "?line \<noteq> []" by (simp add: shape_def)
    let ?L' = "lines_of wid True rest"
    have L: "lines_of wid st cs = ?line # ?L'"
      using cne rne lne by (subst lines_of.simps) (simp add: f)
    have vr: "valid wid True rest" using v f fl(5) by (rule valid_rest)
    have gr: "\<forall>c \<in> set rest. gap c \<longrightarrow> length c \<le> 5"
      using gaps fill_rest_subset(1)[OF f] by blast
    from less.hyps[OF fl(9) vr gr]
    have ih1: "\<forall>l \<in> set ?L'. shape wid l \<and> (\<exists>pre post. rest = pre @ l @ post)"
      and ih2: "tight wid ?L'"
      and ih3: "?L' \<noteq> [] \<longrightarrow> hd (hd ?L') = hd (drop_leading True rest)"
      by blast+
    have "\<exists>p0. cs = p0 @ ?cs1"
    proof (cases cs)
      case Nil
      then show ?thesis by simp
    next
      case (Cons a list)
      show ?thesis
      proof (cases "blank a \<and> st")
        case True
        with Cons have "cs = [a] @ ?cs1" by simp
        then show ?thesis by blast
      next
        case False
        with Cons have "cs = [] @ ?cs1" by simp
        then show ?thesis by blast
      qed
    qed
    then obtain p0 where p0: "cs = p0 @ ?cs1" by blast
    have acr: "chunky (cl @ rest)" using fl(8) v c1ne
      by (cases cs) (auto simp: valid_def dest: chunky_Cons split: if_splits)
    have "\<exists>q. cl = ?line @ q"
      by (cases "blank (last cl)") (use tr(3,4) in auto)
    then obtain q where q: "cl = ?line @ q" by blast
    have inf1: "\<exists>pre post. cs = pre @ ?line @ post"
    proof -
      have "cs = p0 @ ?line @ (q @ rest)" using p0 fl(8) q by simp
      then show ?thesis by blast
    qed
    have inf2: "\<exists>pre post. cs = pre @ l @ post" if "l \<in> set ?L'" for l
    proof -
      from ih1 that obtain pre post where "rest = pre @ l @ post" by blast
      then have "cs = (p0 @ cl @ pre) @ l @ post" using p0 fl(8) by simp
      then show ?thesis by blast
    qed
    have c1: "\<forall>l \<in> set (?line # ?L'). shape wid l \<and> (\<exists>pre post. cs = pre @ l @ post)"
      using tr(1) ih1 inf1 inf2 by auto
    have c2: "hd ?line = hd ?cs1"
      using tr(2) fl(3) by simp
    have c3: "tight wid (?line # ?L')"
    proof (cases "?L' = []")
      case True
      then show ?thesis by simp
    next
      case L'ne: False
      have restne: "rest \<noteq> []" using L'ne by (auto simp: lines_of_Nil)
      let ?m = "int (length (concat ?line))"
      let ?d = "hd (hd ?L')"
      note full = fill_line_props(3)[OF f restne]
      have over: "wid < ?m + 5 + int (length ?d)"
      proof (cases "blank (last cl)")
        case b: True
        from tr(3)[OF b] have e: "cl = ?line @ [last cl]" and g: "gap (last cl)" by simp_all
        have "last cl \<in> set cs"
          using fill_rest_subset(2)[OF f] fl(2) by auto
        with gaps g have s5: "length (last cl) \<le> 5" by simp
        have "concat cl = concat (?line @ [last cl])" using e by simp
        then have "concat cl = concat ?line @ last cl" by simp
        then have "length (concat cl) = length (concat ?line) + length (last cl)" by simp
        then have n: "n = ?m + int (length (last cl))" using fl(6) by simp
        from chunky_adjacent[OF acr fl(2) restne] g have "wordy (hd rest)"
          by (auto simp: wordy_not_gap)
        with restne have "drop_leading True rest = rest" by (intro drop_leading_wordy)
        with ih3 L'ne have "?d = hd rest" by simp
        with full n s5 show ?thesis by simp
      next
        case nb: False
        from tr(4)[OF nb] have e: "?line = cl" by simp
        have "hd rest \<in> set cs"
          using fill_rest_subset(1)[OF f] restne by auto
        then have wg: "wordy (hd rest) \<or> gap (hd rest)"
          using v by (auto simp: valid_def dest: chunky_member)
        show ?thesis
        proof (cases "gap (hd rest)")
          case True
          with gaps \<open>hd rest \<in> set cs\<close> have "length (hd rest) \<le> 5" by simp
          with full fl(6) e show ?thesis by simp
        next
          case False
          with wg have "wordy (hd rest)" by simp
          with restne have "drop_leading True rest = rest" by (intro drop_leading_wordy)
          with ih3 L'ne have "?d = hd rest" by simp
          with full fl(6) e show ?thesis by simp
        qed
      qed
      with ih2 L'ne show ?thesis by (simp add: tight_Cons)
    qed
    from c1 c2 c3 show ?thesis unfolding L by simp
  qed
qed

subsection \<open>The hyphen alternative of the pattern\<close>

lemma not_word_hyphen [simp]: "\<not> is_word CHR ''-''" "\<not> is_space CHR ''-''"
  by (simp_all add: is_word_def is_alpha_def is_digit_def is_space_def)

lemma space_not_word: "is_space c \<Longrightarrow> \<not> is_word c"
  by (auto simp: is_space_def is_word_def is_alpha_def is_digit_def)

lemma good_append: "good W \<Longrightarrow> good (W @ V)"
  by (cases W) (auto simp: good_def list_ex_iff)

lemma good_last: "2 \<le> length W \<Longrightarrow> \<not> is_digit (last W) \<Longrightarrow> good W"
proof -
  assume a: "2 \<le> length W" "\<not> is_digit (last W)"
  then obtain x y W' where W: "W = x # y # W'"
    by (cases W; cases "tl W") auto
  then have "last W \<in> set (tl W)" by simp
  with a show ?thesis by (auto simp: good_def list_ex_iff)
qed

lemma hyphen_match_comp:
  assumes "\<forall>c \<in> set pp. \<not> is_space c \<and> \<not> is_word c" and "\<forall>c \<in> set ww. is_word c" and "ww \<noteq> []"
  shows "hyphen_match (pp @ ww @ CHR ''-'' # U) =
           (if 2 \<le> length ww \<and> \<not> is_digit (last ww) \<and> good (takeWhile is_word U)
            then Some (length pp + length ww + 1) else None)"
proof -
  let ?P = "\<lambda>c. \<not> is_space c \<and> \<not> is_word c"
  from assms(2,3) obtain x ww' where ww: "ww = x # ww'" and x: "is_word x" by (cases ww) auto
  have 1: "takeWhile ?P (pp @ ww @ CHR ''-'' # U) = pp"
    using assms(1) x by (simp add: ww)
  have 2: "takeWhile is_word (ww @ CHR ''-'' # U) = ww"
    using assms(2) by simp
  show ?thesis
    by (simp add: hyphen_match_def Let_def 1 2 good_def)
qed

lemma hyphen_match_decomp:
  assumes "hyphen_match s = Some m"
  shows "\<exists>pp ww U. s = pp @ ww @ CHR ''-'' # U \<and> (\<forall>c \<in> set pp. \<not> is_space c \<and> \<not> is_word c) \<and>
           (\<forall>c \<in> set ww. is_word c) \<and> 2 \<le> length ww \<and> \<not> is_digit (last ww) \<and>
           good (takeWhile is_word U) \<and> m = length pp + length ww + 1"
proof -
  let ?P = "\<lambda>c. \<not> is_space c \<and> \<not> is_word c"
  let ?p = "takeWhile ?P s"
  let ?r1 = "drop (length ?p) s"
  let ?wd = "takeWhile is_word ?r1"
  let ?r2 = "drop (length ?wd) ?r1"
  have s1: "s = ?p @ ?r1" by (simp add: dropWhile_eq_drop[symmetric])
  have s2: "?r1 = ?wd @ ?r2" by (simp add: dropWhile_eq_drop[symmetric])
  from assms obtain h r3 where r2: "?r2 = h # r3"
    by (cases ?r2) (simp_all add: hyphen_match_def Let_def)
  from assms r2 have c: "2 \<le> length ?wd" "\<not> is_digit (last ?wd)" "h = CHR ''-''"
    "good (takeWhile is_word r3)" "m = length ?p + length ?wd + 1"
    by (auto simp: hyphen_match_def Let_def good_def split: if_splits)
  have "s = ?p @ ?wd @ CHR ''-'' # r3"
    using s1 s2 r2 c(3) by metis
  moreover have "\<forall>c \<in> set ?p. ?P c" by (auto dest: set_takeWhileD)
  moreover have "\<forall>c \<in> set ?wd. is_word c" by (auto dest: set_takeWhileD)
  ultimately show ?thesis using c by blast
qed

text \<open>A match stays a match when the text goes on.\<close>

lemma takeWhile_append_ex: "\<exists>V. takeWhile Q (r @ Y) = takeWhile Q r @ V"
proof (cases "\<forall>x \<in> set r. Q x")
  case True
  then have a: "takeWhile Q (r @ Y) = r @ takeWhile Q Y" by simp
  from True have b: "takeWhile Q r = r" by (induction r) auto
  show ?thesis unfolding a b by blast
next
  case False
  then have "takeWhile Q (r @ Y) = takeWhile Q r" by (auto simp: takeWhile_append1)
  then show ?thesis by simp
qed

lemma hyphen_match_extend:
  assumes "hyphen_match s = Some m"
  shows "hyphen_match (s @ Y) = Some m"
proof -
  from hyphen_match_decomp[OF assms] obtain pp ww U where d: "s = pp @ ww @ CHR ''-'' # U"
    "\<forall>c \<in> set pp. \<not> is_space c \<and> \<not> is_word c" "\<forall>c \<in> set ww. is_word c" "2 \<le> length ww"
    "\<not> is_digit (last ww)" "good (takeWhile is_word U)" "m = length pp + length ww + 1"
    by blast
  from d(4) have ne: "ww \<noteq> []" by auto
  obtain V where "takeWhile is_word (U @ Y) = takeWhile is_word U @ V"
    using takeWhile_append_ex by blast
  with d(6) have g: "good (takeWhile is_word (U @ Y))" by (simp add: good_append)
  have "s @ Y = pp @ ww @ CHR ''-'' # (U @ Y)" by (simp add: d(1))
  with hyphen_match_comp[OF d(2,3) ne, of "U @ Y"] d(4,5,7) g show ?thesis by simp
qed

text \<open>The pattern does not look past whitespace.\<close>

lemma takeWhile_before_space:
  "(\<And>c. is_space c \<Longrightarrow> \<not> Q c) \<Longrightarrow> r = [] \<or> is_space (hd r) \<Longrightarrow> takeWhile Q (s @ r) = takeWhile Q s"
  by (induction s) (cases r; auto)+

lemma hyphen_match_local:
  assumes "r = [] \<or> is_space (hd r)"
  shows "hyphen_match (s @ r) = hyphen_match s"
proof -
  let ?P = "\<lambda>c. \<not> is_space c \<and> \<not> is_word c"
  let ?p = "takeWhile ?P s"
  let ?r1 = "drop (length ?p) s"
  let ?wd = "takeWhile is_word ?r1"
  let ?r2 = "drop (length ?wd) ?r1"
  have 1: "takeWhile ?P (s @ r) = ?p"
    using assms by (intro takeWhile_before_space) auto
  have l1: "length ?p \<le> length s" by (rule length_takeWhile_le)
  then have 2: "drop (length ?p) (s @ r) = ?r1 @ r" by simp
  have 3: "takeWhile is_word (?r1 @ r) = ?wd"
    using assms by (intro takeWhile_before_space) (auto simp: space_not_word)
  have l2: "length ?wd \<le> length ?r1" by (rule length_takeWhile_le)
  then have 4: "drop (length ?wd) (?r1 @ r) = ?r2 @ r" by simp
  have e: "hyphen_match (s @ r) =
      (case ?r2 @ r of [] \<Rightarrow> None
       | h # r3 \<Rightarrow>
           if 2 \<le> length ?wd \<and> \<not> is_digit (last ?wd) \<and> h = CHR ''-'' \<and>
              2 \<le> length (takeWhile is_word r3) \<and>
              list_ex (\<lambda>c. \<not> is_digit c) (tl (takeWhile is_word r3))
           then Some (length ?p + length ?wd + 1)
           else None)"
    unfolding hyphen_match_def Let_def 1 2 3 4 ..
  show ?thesis
  proof (cases ?r2)
    case Nil
    then have "hyphen_match s = None" by (simp add: hyphen_match_def Let_def)
    moreover have "hyphen_match (s @ r) = None"
    proof (cases r)
      case Nil
      with \<open>?r2 = []\<close> show ?thesis unfolding e by simp
    next
      case (Cons a list)
      with assms have "a \<noteq> CHR ''-''" by auto
      with Cons \<open>?r2 = []\<close> show ?thesis unfolding e by simp
    qed
    ultimately show ?thesis by simp
  next
    case (Cons h r3)
    have 5: "takeWhile is_word (r3 @ r) = takeWhile is_word r3"
      using assms by (intro takeWhile_before_space) (auto simp: space_not_word)
    have "hyphen_match (s @ r) =
        (if 2 \<le> length ?wd \<and> \<not> is_digit (last ?wd) \<and> h = CHR ''-'' \<and>
              2 \<le> length (takeWhile is_word r3) \<and>
              list_ex (\<lambda>c. \<not> is_digit c) (tl (takeWhile is_word r3))
           then Some (length ?p + length ?wd + 1)
           else None)"
      unfolding e Cons by (simp only: append_Cons list.case 5)
    moreover have "hyphen_match s =
        (if 2 \<le> length ?wd \<and> \<not> is_digit (last ?wd) \<and> h = CHR ''-'' \<and>
              2 \<le> length (takeWhile is_word r3) \<and>
              list_ex (\<lambda>c. \<not> is_digit c) (tl (takeWhile is_word r3))
           then Some (length ?p + length ?wd + 1)
           else None)"
      unfolding hyphen_match_def Let_def Cons by (simp only: list.case)
    ultimately show ?thesis by simp
  qed
qed

subsection \<open>The scan stops at whitespace\<close>

lemma dash_match_local:
  assumes "r = [] \<or> is_space (hd r)"
  shows "dash_match p (s @ r) = dash_match p s"
proof -
  let ?d = "takeWhile (\<lambda>c. c = CHR ''-'') s"
  have 1: "takeWhile (\<lambda>c. c = CHR ''-'') (s @ r) = ?d"
    using assms by (intro takeWhile_before_space) auto
  have "length ?d \<le> length s" by (rule length_takeWhile_le)
  then have 2: "drop (length ?d) (s @ r) = drop (length ?d) s @ r" by simp
  have 3: "(case drop (length ?d) s @ r of [] \<Rightarrow> False | c # x \<Rightarrow> is_word c) =
           (case drop (length ?d) s of [] \<Rightarrow> False | c # x \<Rightarrow> is_word c)"
    using assms by (cases "drop (length ?d) s"; cases r) (auto simp: space_not_word)
  show ?thesis
    unfolding dash_match_def Let_def 1 2 3 ..
qed

lemma ws_match_local:
  assumes "s \<noteq> []" and "\<not> is_space (last s)"
  shows "ws_match (s @ r) = ws_match s"
proof -
  from assms have "\<exists>x \<in> set s. \<not> is_space x" using last_in_set by blast
  then have "takeWhile is_space (s @ r) = takeWhile is_space s"
    by (auto simp: takeWhile_append1)
  then show ?thesis by (simp add: ws_match_def)
qed

lemma sep_match_local:
  assumes "s \<noteq> []" and "\<not> is_space (last s)" and "r = [] \<or> is_space (hd r)"
  shows "sep_match p (s @ r) = sep_match p s"
  unfolding sep_match_def ws_match_local[OF assms(1,2)] hyphen_match_local[OF assms(3)]
    dash_match_local[OF assms(3)] ..

lemma sep_match_bound:
  assumes "sep_match p s = Some n"
  shows "1 \<le> n \<and> n \<le> length s"
proof (cases "ws_match s")
  case (Some m)
  with assms have "n = m" by (simp add: sep_match_def)
  with Some show ?thesis
    using length_takeWhile_le[of is_space s]
    by (auto simp: ws_match_def split: list.splits)
next
  case None
  show ?thesis
  proof (cases "hyphen_match s")
    case (Some m)
    with None assms have "n = m" by (simp add: sep_match_def)
    with hyphen_match_decomp[OF Some] show ?thesis by auto
  next
    case hn: None
    with None assms have d: "dash_match p s = Some n" by (simp add: sep_match_def)
    then show ?thesis
      using length_takeWhile_le[of "\<lambda>c. c = CHR ''-''" s]
      by (auto simp: dash_match_def Let_def split: option.splits if_splits)
  qed
qed

lemma split_from_space:
  assumes "r = [] \<or> is_space (hd r)"
  shows "split_from p pending r = flush pending @ split_from q [] r"
proof (cases r)
  case Nil
  then show ?thesis by (simp add: flush_def)
next
  case (Cons c r')
  with assms have "is_space c" by simp
  then have "sep_match p (c # r') = Some (length (takeWhile is_space (c # r')))"
    "sep_match q (c # r') = Some (length (takeWhile is_space (c # r')))"
    by (simp_all add: sep_match_def ws_match_def)
  then show ?thesis by (simp add: Cons flush_def)
qed

lemma split_from_local:
  "X = [] \<or> \<not> is_space (last X) \<Longrightarrow> r = [] \<or> is_space (hd r) \<Longrightarrow>
     split_from p pending (X @ r) = split_from p pending X @ split_from q [] r"
proof (induction p pending X rule: split_from.induct)
  case (1 prev pending)
  then show ?case using split_from_space[of r prev pending q] by simp
next
  case (2 prev pending c cs)
  from 2(3) have l: "\<not> is_space (last (c # cs))" by simp
  have sm: "sep_match prev ((c # cs) @ r) = sep_match prev (c # cs)"
    using l 2(4) by (intro sep_match_local) simp_all
  show ?case
  proof (cases "sep_match prev (c # cs)")
    case None
    have "cs = [] \<or> \<not> is_space (last cs)" using l by (cases cs) auto
    from 2(1)[OF None this 2(4)] None sm show ?thesis by simp
  next
    case (Some n)
    from sep_match_bound[OF Some] have b: "n - 1 \<le> length cs" by auto
    have "drop (n - 1) cs = [] \<or> \<not> is_space (last (drop (n - 1) cs))"
    proof (cases "drop (n - 1) cs = []")
      case True
      then show ?thesis by simp
    next
      case False
      then have "cs \<noteq> []" "n - 1 < length cs" by auto
      then have "last (drop (n - 1) cs) = last (c # cs)" by (simp add: last_drop)
      with l show ?thesis by simp
    qed
    from 2(2)[OF Some this 2(4)] Some sm b show ?thesis by simp
  qed
qed

subsection \<open>The scan of a text without double hyphens\<close>

lemma no_dash_Cons: "no_dash (c # cs) \<Longrightarrow> no_dash cs"
  by (cases cs) auto

lemma no_dash_drop: "no_dash s \<Longrightarrow> no_dash (drop k s)"
proof (induction k arbitrary: s)
  case 0
  then show ?case by simp
next
  case (Suc k)
  then show ?case by (cases s) (auto dest: no_dash_Cons)
qed

lemma no_dash_appendD: "no_dash (xs @ ys) \<Longrightarrow> no_dash xs \<and> no_dash ys"
proof (induction xs rule: no_dash.induct)
  case (1 a b r)
  then show ?case by auto
next
  case (2 a)
  then show ?case by (auto dest: no_dash_Cons)
next
  case 3
  then show ?case by simp
qed

lemma no_dash_append:
  "no_dash xs \<Longrightarrow> no_dash ys \<Longrightarrow>
     xs = [] \<or> ys = [] \<or> last xs \<noteq> CHR ''-'' \<or> hd ys \<noteq> CHR ''-'' \<Longrightarrow> no_dash (xs @ ys)"
proof (induction xs rule: no_dash.induct)
  case (1 a b r)
  then show ?case by auto
next
  case (2 a)
  then show ?case by (cases ys) auto
next
  case 3
  then show ?case by simp
qed

lemma no_dash_match: "no_dash s \<Longrightarrow> dash_match p s = None"
proof -
  assume n: "no_dash s"
  have "length (takeWhile (\<lambda>c. c = CHR ''-'') s) \<le> 1"
  proof (cases s)
    case Nil
    then show ?thesis by simp
  next
    case (Cons a s')
    show ?thesis
    proof (cases s')
      case Nil
      with Cons show ?thesis by simp
    next
      case (Cons b r)
      with \<open>s = a # s'\<close> n show ?thesis by auto
    qed
  qed
  then show ?thesis
    by (cases p) (simp_all add: dash_match_def Let_def)
qed

lemma sep_match_indep: "no_dash s \<Longrightarrow> sep_match p s = sep_match q s"
  by (simp add: sep_match_def no_dash_match split: option.splits)

lemma split_from_indep: "no_dash T \<Longrightarrow> split_from p pending T = split_from q pending T"
proof (cases T)
  case Nil
  then show ?thesis by simp
next
  case (Cons c cs)
  assume "no_dash T"
  with Cons have "sep_match p (c # cs) = sep_match q (c # cs)"
    by (intro sep_match_indep) simp
  with Cons show ?thesis by simp
qed

text \<open>The chunks after a chunk boundary are the chunks of the text after it.\<close>

lemma split_from_cut:
  "no_dash T \<Longrightarrow> split_from p pending T = as @ bs \<Longrightarrow> pending = [] \<or> as \<noteq> [] \<Longrightarrow>
     \<exists>k. k \<le> length T \<and> concat as = pending @ take k T \<and> (\<forall>q. split_from q [] (drop k T) = bs)"
proof (induction p pending T arbitrary: as bs rule: split_from.induct)
  case (1 prev pending)
  show ?case
  proof (cases "pending = []")
    case True
    with 1(2) have "as = []" "bs = []" by (simp_all add: flush_def)
    with True show ?thesis by (simp add: flush_def)
  next
    case False
    with 1(2) have e: "[pending] = as @ bs" by (simp add: flush_def)
    from False 1(3) have "as \<noteq> []" by simp
    with e have "as = [pending]" "bs = []"
      by (cases as; simp)+
    then show ?thesis by (simp add: flush_def)
  qed
next
  case (2 prev pending c cs)
  from 2(3) have nd: "no_dash cs" by (rule no_dash_Cons)
  have ind: "sep_match q (c # cs) = sep_match prev (c # cs)" for q
    using 2(3) by (rule sep_match_indep)
  show ?case
  proof (cases "sep_match prev (c # cs)")
    case None
    with 2(4) have eq: "split_from (Some c) (pending @ [c]) cs = as @ bs" by simp
    show ?thesis
    proof (cases "as = []")
      case True
      with 2(5) have p: "pending = []" by simp
      have "split_from q [] (c # cs) = bs" for q
        using ind[of q] None eq True p by simp
      with True p show ?thesis by (intro exI[of _ 0]) simp
    next
      case False
      from 2(1)[OF None nd eq] False obtain k where k: "k \<le> length cs"
        "concat as = (pending @ [c]) @ take k cs" "\<forall>q. split_from q [] (drop k cs) = bs"
        by blast
      then show ?thesis by (intro exI[of _ "Suc k"]) simp
    qed
  next
    case (Some n)
    let ?chunk = "c # take (n - 1) cs"
    let ?R = "split_from (Some (last ?chunk)) [] (drop (n - 1) cs)"
    from sep_match_bound[OF Some] have b: "1 \<le> n" "n - 1 \<le> length cs" by auto
    have whole: "split_from q [] (c # cs) = ?chunk # ?R" for q
      using ind[of q] Some by (simp add: flush_def)
    from 2(4) Some have out: "flush pending @ ?chunk # ?R = as @ bs" by simp
    have nd': "no_dash (drop (n - 1) cs)" using nd by (rule no_dash_drop)
    have tail: "\<exists>k. k \<le> length (c # cs) \<and> ?chunk @ concat as2 = take k (c # cs) \<and>
        (\<forall>q. split_from q [] (drop k (c # cs)) = bs)" if r: "?R = as2 @ bs" for as2
    proof -
      from 2(2)[OF Some nd' r] obtain k where k: "k \<le> length (drop (n - 1) cs)"
        "concat as2 = take k (drop (n - 1) cs)" "\<forall>q. split_from q [] (drop k (drop (n - 1) cs)) = bs"
        by auto
      from b(1) obtain m where m: "n = Suc m" by (cases n) auto
      have t: "take (m + k) cs = take m cs @ take k (drop m cs)"
        by (rule take_add)
      have 1: "take (n + k) (c # cs) = ?chunk @ concat as2"
        using t k(2) by (simp add: m)
      have 2: "drop (n + k) (c # cs) = drop k (drop (n - 1) cs)"
        by (simp add: m add.commute)
      have 3: "n + k \<le> length (c # cs)" using k(1) b by (simp add: m)
      from 1 2 3 k(3) show ?thesis by (intro exI[of _ "n + k"]) simp
    qed
    show ?thesis
    proof (cases "as = []")
      case True
      with 2(5) have p: "pending = []" by simp
      with out True have "bs = ?chunk # ?R" by (simp add: flush_def)
      with whole True p show ?thesis by (intro exI[of _ 0]) simp
    next
      case ane: False
      show ?thesis
      proof (cases "pending = []")
        case True
        with out have "?chunk # ?R = as @ bs" by (simp add: flush_def)
        with ane obtain as2 where a: "as = ?chunk # as2" "?R = as2 @ bs"
          by (cases as) auto
        from tail[OF a(2)] a(1) True show ?thesis by simp
      next
        case False
        with out have "pending # ?chunk # ?R = as @ bs" by (simp add: flush_def)
        with ane obtain as1 where a1: "as = pending # as1" "?chunk # ?R = as1 @ bs"
          by (cases as) auto
        show ?thesis
        proof (cases "as1 = []")
          case True
          with a1 whole show ?thesis by (intro exI[of _ 0]) simp
        next
          case False
          with a1(2) obtain as2 where a: "as1 = ?chunk # as2" "?R = as2 @ bs"
            by (cases as1) auto
          from tail[OF a(2)] obtain k where k: "k \<le> length (c # cs)"
            "?chunk @ concat as2 = take k (c # cs)" "\<forall>q. split_from q [] (drop k (c # cs)) = bs"
            by blast
          have "concat as = pending @ take k (c # cs)"
            using a1(1) a(1) k(2) by simp
          with k(1,3) show ?thesis by blast
        qed
      qed
    qed
  qed
qed

text \<open>A match is a maximal run of whitespace or has no whitespace.\<close>

lemma sep_match_kind:
  assumes "sep_match p (c # cs) = Some n"
  shows "(gap (c # take (n - 1) cs) \<and>
          (drop (n - 1) cs = [] \<or> \<not> is_space (hd (drop (n - 1) cs)))) \<or>
         (\<not> is_space c \<and> wordy (c # take (n - 1) cs))"
proof (cases "is_space c")
  case True
  then have "ws_match (c # cs) = Some (Suc (length (takeWhile is_space cs)))"
    by (simp add: ws_match_def)
  with assms have n: "n - 1 = length (takeWhile is_space cs)" by (simp add: sep_match_def)
  have t: "take (n - 1) cs = takeWhile is_space cs"
    unfolding n by (rule takeWhile_eq_take[symmetric])
  have d: "drop (n - 1) cs = dropWhile is_space cs"
    unfolding n by (rule dropWhile_eq_drop[symmetric])
  have "gap (c # take (n - 1) cs)"
    unfolding t using True by (auto simp: gap_def dest: set_takeWhileD)
  moreover have "drop (n - 1) cs = [] \<or> \<not> is_space (hd (drop (n - 1) cs))"
    unfolding d using hd_dropWhile[of is_space cs] by blast
  ultimately show ?thesis by blast
next
  case False
  then have w: "ws_match (c # cs) = None" by (simp add: ws_match_def)
  have "\<forall>x \<in> set (take n (c # cs)). \<not> is_space x"
  proof (cases "hyphen_match (c # cs)")
    case (Some m)
    with w assms have "m = n" by (simp add: sep_match_def)
    from hyphen_match_decomp[OF Some] obtain pp ww U where d: "c # cs = pp @ ww @ CHR ''-'' # U"
      "\<forall>x \<in> set pp. \<not> is_space x \<and> \<not> is_word x" "\<forall>x \<in> set ww. is_word x"
      "m = length pp + length ww + 1"
      by blast
    have "take n (c # cs) = pp @ ww @ [CHR ''-'']"
      unfolding d(1) \<open>m = n\<close>[symmetric] d(4) by simp
    with d(2,3) show ?thesis by (auto dest: space_not_word)
  next
    case None
    with w assms have dm: "dash_match p (c # cs) = Some n" by (simp add: sep_match_def)
    then have "n = length (takeWhile (\<lambda>x. x = CHR ''-'') (c # cs))"
      by (auto simp: dash_match_def Let_def split: option.splits if_splits)
    then have "take n (c # cs) = takeWhile (\<lambda>x. x = CHR ''-'') (c # cs)"
      by (simp only: takeWhile_eq_take[symmetric])
    then show ?thesis by (auto dest: set_takeWhileD)
  qed
  moreover from sep_match_bound[OF assms] obtain m where "n = Suc m" by (cases n) auto
  ultimately have "wordy (c # take (n - 1) cs)" by (simp add: wordy_def)
  with False show ?thesis by simp
qed

lemma split_from_chunky:
  "\<forall>x \<in> set pending. \<not> is_space x \<Longrightarrow>
     chunky (split_from p pending T) \<and>
     (pending \<noteq> [] \<or> (T \<noteq> [] \<and> \<not> is_space (hd T)) \<longrightarrow>
        split_from p pending T \<noteq> [] \<and> wordy (hd (split_from p pending T)))"
proof (induction p pending T rule: split_from.induct)
  case (1 prev pending)
  then show ?case by (simp add: flush_def wordy_def)
next
  case (2 prev pending c cs)
  have wp: "pending \<noteq> [] \<Longrightarrow> wordy pending" using 2(3) by (simp add: wordy_def)
  show ?case
  proof (cases "sep_match prev (c # cs)")
    case None
    then have "\<not> is_space c" by (auto simp: sep_match_def ws_match_def split: option.splits)
    with 2(3) have "\<forall>x \<in> set (pending @ [c]). \<not> is_space x" by simp
    from 2(1)[OF None this] None show ?thesis by simp
  next
    case (Some n)
    let ?chunk = "c # take (n - 1) cs"
    let ?R = "split_from (Some (last ?chunk)) [] (drop (n - 1) cs)"
    have "\<forall>x \<in> set ([] :: string). \<not> is_space x" by simp
    from 2(2)[OF Some this] have ih: "chunky ?R"
      "drop (n - 1) cs \<noteq> [] \<and> \<not> is_space (hd (drop (n - 1) cs)) \<longrightarrow> ?R \<noteq> [] \<and> wordy (hd ?R)"
      by simp_all
    have out: "split_from prev pending (c # cs) = flush pending @ ?chunk # ?R"
      using Some by simp
    from sep_match_kind[OF Some] show ?thesis
    proof
      assume g: "gap ?chunk \<and> (drop (n - 1) cs = [] \<or> \<not> is_space (hd (drop (n - 1) cs)))"
      then have sp: "is_space c" by (simp add: gap_def)
      have "?R = [] \<or> wordy (hd ?R)"
      proof (cases "drop (n - 1) cs = []")
        case True
        then show ?thesis by (simp add: flush_def)
      next
        case False
        with g ih(2) show ?thesis by simp
      qed
      with g ih(1) have c: "chunky (?chunk # ?R)"
        by (cases ?R) simp_all
      show ?thesis
      proof (cases "pending = []")
        case True
        with c sp show ?thesis unfolding out by (simp add: flush_def)
      next
        case False
        with c wp show ?thesis unfolding out by (simp add: flush_def)
      qed
    next
      assume w: "\<not> is_space c \<and> wordy ?chunk"
      with ih(1) have c: "chunky (?chunk # ?R)"
        by (cases ?R) simp_all
      show ?thesis
      proof (cases "pending = []")
        case True
        with c w show ?thesis unfolding out by (simp add: flush_def)
      next
        case False
        with c wp show ?thesis unfolding out by (simp add: flush_def)
      qed
    qed
  qed
qed

text \<open>Characters at which nothing matches are gathered into one chunk.\<close>

lemma split_from_gather:
  "no_dash T \<Longrightarrow> k \<le> length T \<Longrightarrow> \<forall>i < k. sep_match None (drop i T) = None \<Longrightarrow>
     \<exists>p'. split_from p pending T = split_from p' (pending @ take k T) (drop k T)"
proof (induction k arbitrary: p pending T)
  case 0
  then show ?case by auto
next
  case (Suc k)
  then obtain c cs where T: "T = c # cs" by (cases T) auto
  from Suc.prems(3) have "sep_match None (drop 0 T) = None" by blast
  then have "sep_match p (c # cs) = None"
    using sep_match_indep[OF Suc.prems(1), of p None] by (simp add: T)
  then have 1: "split_from p pending T = split_from (Some c) (pending @ [c]) cs"
    by (simp add: T)
  have nd: "no_dash cs" using Suc.prems(1) T by (auto dest: no_dash_Cons)
  have "\<forall>i < k. sep_match None (drop i cs) = None"
  proof (intro allI impI)
    fix i assume "i < k"
    then have "Suc i < Suc k" by simp
    with Suc.prems(3) have "sep_match None (drop (Suc i) T) = None" by blast
    then show "sep_match None (drop i cs) = None" by (simp add: T)
  qed
  from Suc.IH[OF nd _ this, of "Some c" "pending @ [c]"] Suc.prems(2) T
  obtain p' where "split_from (Some c) (pending @ [c]) cs =
      split_from p' ((pending @ [c]) @ take k cs) (drop k cs)"
    by auto
  with 1 T show ?case by auto
qed

lemma split_from_hd:
  "pending \<noteq> [] \<Longrightarrow>
     split_from p pending T \<noteq> [] \<and> length pending \<le> length (hd (split_from p pending T))"
proof (induction p pending T rule: split_from.induct)
  case (1 prev pending)
  then show ?case by (simp add: flush_def)
next
  case (2 prev pending c cs)
  show ?case
  proof (cases "sep_match prev (c # cs)")
    case None
    with 2(1)[OF None] show ?thesis by simp
  next
    case (Some n)
    with 2(3) show ?thesis by (simp add: flush_def)
  qed
qed

text \<open>No match begins inside a chunk that was gathered.\<close>

lemma split_from_quiet:
  "no_dash T \<Longrightarrow> split_from p pending T = d # bs \<Longrightarrow>
     pending \<noteq> [] \<or> sep_match None T = None \<Longrightarrow>
     \<forall>i. i + length pending < length d \<longrightarrow> sep_match None (drop i T) = None"
proof (induction p pending T rule: split_from.induct)
  case (1 prev pending)
  then show ?case by (auto simp: flush_def split: if_splits)
next
  case (2 prev pending c cs)
  have ind: "sep_match prev (c # cs) = sep_match None (c # cs)"
    using 2(3) by (rule sep_match_indep)
  show ?case
  proof (cases "sep_match prev (c # cs)")
    case None
    with 2(4) have eq: "split_from (Some c) (pending @ [c]) cs = d # bs" by simp
    from 2(3) have nd: "no_dash cs" by (rule no_dash_Cons)
    from 2(1)[OF None nd eq]
    have ih: "\<forall>i. i + length (pending @ [c]) < length d \<longrightarrow> sep_match None (drop i cs) = None"
      by simp
    show ?thesis
    proof (intro allI impI)
      fix i assume a: "i + length pending < length d"
      show "sep_match None (drop i (c # cs)) = None"
      proof (cases i)
        case 0
        with None ind show ?thesis by simp
      next
        case (Suc j)
        with a have "j + length (pending @ [c]) < length d" by simp
        with ih Suc show ?thesis by simp
      qed
    qed
  next
    case (Some n)
    with ind 2(5) have "pending \<noteq> []" by auto
    with 2(4) Some have "d = pending" by (simp add: flush_def)
    then show ?thesis by simp
  qed
qed

text \<open>
  A hyphen match that is lost when the text ends earlier loses the lookahead after its
  hyphen; then nothing matches inside it either.
\<close>

lemma hyphen_inside:
  assumes m: "hyphen_match (X @ Y) = Some n" and le: "n \<le> length X"
    and none: "hyphen_match X = None" and i: "0 < i" "i < n"
  shows "hyphen_match (drop i X) = None"
proof -
  from hyphen_match_decomp[OF m] obtain pp ww U where d: "X @ Y = pp @ ww @ CHR ''-'' # U"
    "\<forall>c \<in> set pp. \<not> is_space c \<and> \<not> is_word c" "\<forall>c \<in> set ww. is_word c" "2 \<le> length ww"
    "\<not> is_digit (last ww)" "good (takeWhile is_word U)" "n = length pp + length ww + 1"
    by blast
  from d(4) have wne: "ww \<noteq> []" by auto
  let ?U3 = "drop n X"
  have "take n (X @ Y) = pp @ ww @ [CHR ''-'']"
    unfolding d(1) d(7) by simp
  with le have tk: "take n X = pp @ ww @ [CHR ''-'']" by simp
  have X: "X = pp @ ww @ CHR ''-'' # ?U3"
    using append_take_drop_id[of n X] tk by simp
  have "X @ Y = pp @ ww @ CHR ''-'' # (?U3 @ Y)"
    using X by (metis append.assoc append_Cons)
  with d(1) have U: "U = ?U3 @ Y" by simp
  have ng: "\<not> good (takeWhile is_word ?U3)"
  proof
    assume "good (takeWhile is_word ?U3)"
    with hyphen_match_comp[OF d(2,3) wne, of ?U3] d(4,5) X have "hyphen_match X \<noteq> None"
      by simp
    with none show False by simp
  qed
  consider "i < length pp" | "length pp \<le> i" "i < length pp + length ww" | "i = length pp + length ww"
    using i(2) d(7) by linarith
  then show ?thesis
  proof cases
    case 1
    have e: "drop i X = drop i pp @ ww @ CHR ''-'' # ?U3"
      using 1 by (subst X) simp
    have "\<forall>c \<in> set (drop i pp). \<not> is_space c \<and> \<not> is_word c"
      using d(2) by (auto dest: in_set_dropD)
    from hyphen_match_comp[OF this d(3) wne, of ?U3] ng show ?thesis
      unfolding e by simp
  next
    case 2
    let ?j = "i - length pp"
    have e: "drop i X = [] @ drop ?j ww @ CHR ''-'' # ?U3"
      using 2 by (subst X) simp
    have w: "\<forall>c \<in> set (drop ?j ww). is_word c" using d(3) by (auto dest: in_set_dropD)
    have ne: "drop ?j ww \<noteq> []" using 2 by simp
    have "\<forall>c \<in> set ([] :: string). \<not> is_space c \<and> \<not> is_word c" by simp
    from hyphen_match_comp[OF this w ne, of ?U3] ng show ?thesis
      unfolding e by simp
  next
    case 3
    have e: "drop i X = CHR ''-'' # ?U3"
      using 3 by (subst X) simp
    show ?thesis
    proof (rule ccontr)
      assume "hyphen_match (drop i X) \<noteq> None"
      then obtain m' where "hyphen_match (CHR ''-'' # ?U3) = Some m'" unfolding e by auto
      from hyphen_match_decomp[OF this] obtain p2 w2 U4 where d2:
        "CHR ''-'' # ?U3 = p2 @ w2 @ CHR ''-'' # U4"
        "\<forall>c \<in> set p2. \<not> is_space c \<and> \<not> is_word c" "\<forall>c \<in> set w2. is_word c" "2 \<le> length w2"
        "\<not> is_digit (last w2)"
        by blast
      from d2(4) have w2ne: "w2 \<noteq> []" by auto
      have "p2 \<noteq> []"
      proof
        assume "p2 = []"
        with d2(1) w2ne have "hd w2 = CHR ''-''" by (cases w2) auto
        with d2(3) w2ne show False by (cases w2) auto
      qed
      then obtain p2' where p2: "p2 = CHR ''-'' # p2'" using d2(1) by (cases p2) auto
      with d2(1) have U3: "?U3 = p2' @ w2 @ CHR ''-'' # U4" by simp
      show False
      proof (cases p2')
        case Nil
        with U3 d2(3) have "takeWhile is_word ?U3 = w2" by simp
        with good_last[OF d2(4,5)] ng show False by simp
      next
        case (Cons x p3)
        with p2 d2(2) have "\<not> is_word x" by simp
        with U3 Cons have "takeWhile is_word (?U3 @ Y) = []" by simp
        with d(6) U show False by (simp add: good_def)
      qed
    qed
  qed
qed

lemma sep_none_prefix:
  assumes "s \<noteq> []" and "sep_match None (s @ Y) = None"
  shows "sep_match None s = None"
proof -
  from assms(2) have w: "ws_match (s @ Y) = None" and h: "hyphen_match (s @ Y) = None"
    by (auto simp: sep_match_def split: option.splits)
  from w assms(1) have "\<not> is_space (hd s)"
    by (cases s) (auto simp: ws_match_def split: list.splits if_splits)
  with assms(1) have "ws_match s = None" by (cases s) (auto simp: ws_match_def)
  moreover have "hyphen_match s = None"
  proof (cases "hyphen_match s")
    case None
    then show ?thesis .
  next
    case (Some m)
    from hyphen_match_extend[OF this, of Y] h show ?thesis by simp
  qed
  ultimately show ?thesis by (simp add: sep_match_def dash_match_def)
qed

text \<open>
  The first chunk of a text that ends earlier is not shorter than the first chunk of the
  whole text.
\<close>

lemma first_piece:
  assumes nd: "no_dash (X @ Y)" and sp: "split_from p [] (X @ Y) = d # bs"
    and le: "length d \<le> length X" and wd: "wordy d"
  shows "split_from q [] X \<noteq> [] \<and> length d \<le> length (hd (split_from q [] X))"
proof -
  from nd have ndX: "no_dash X" by (auto dest: no_dash_appendD)
  from split_from_concat[of p "[]" "X @ Y"] sp have "d @ concat bs = X @ Y" by simp
  then have "take (length d) (d @ concat bs) = take (length d) (X @ Y)" by simp
  with le have dX: "d = take (length d) X" by simp
  from wd have dne: "d \<noteq> []" by (simp add: wordy_def)
  have ns: "\<not> is_space (hd (drop i X))" if "i < length d" for i
  proof -
    from that le have "hd (drop i X) = X ! i" by (simp add: hd_drop_conv_nth)
    also have "\<dots> = d ! i" using that dX by (metis nth_take)
    finally show ?thesis using wd that by (simp add: wordy_def)
  qed
  have dr: "drop i X \<noteq> []" if "i < length d" for i using that le by simp
  have quiet: "\<forall>i < length d. sep_match None (drop i X) = None \<Longrightarrow> ?thesis"
  proof -
    assume a: "\<forall>i < length d. sep_match None (drop i X) = None"
    from split_from_gather[OF ndX le a, of q "[]"] obtain p' where
      "split_from q [] X = split_from p' (take (length d) X) (drop (length d) X)"
      by auto
    moreover have "take (length d) X \<noteq> []" using dX dne by simp
    ultimately show ?thesis
      using split_from_hd[of "take (length d) X" p' "drop (length d) X"] le by simp
  qed
  show ?thesis
  proof (cases "sep_match None (X @ Y)")
    case None
    from split_from_quiet[OF nd sp] None
    have qq: "\<forall>i. i < length d \<longrightarrow> sep_match None (drop i (X @ Y)) = None" by simp
    have "\<forall>i < length d. sep_match None (drop i X) = None"
    proof (intro allI impI)
      fix i assume a: "i < length d"
      with qq have "sep_match None (drop i (X @ Y)) = None" by blast
      moreover have "drop i (X @ Y) = drop i X @ Y" using a le by simp
      ultimately have "sep_match None (drop i X @ Y) = None" by simp
      with dr[OF a] show "sep_match None (drop i X) = None" by (rule sep_none_prefix)
    qed
    then show ?thesis by (rule quiet)
  next
    case (Some n)
    from dne dX obtain c cs where X: "X = c # cs" by (cases X) auto
    have "sep_match p (c # cs @ Y) = Some n"
      using Some sep_match_indep[OF nd, of p None] by (simp add: X)
    with sp have d: "d = c # take (n - 1) (cs @ Y)" by (simp add: X flush_def)
    from sep_match_bound[OF Some] have b: "1 \<le> n" "n \<le> length (X @ Y)" by simp_all
    then have ln: "length d = n" unfolding d by (simp add: X)
    from ns[of 0] dne have nsc: "\<not> is_space c" by (simp add: X)
    then have w1: "ws_match (X @ Y) = None" "ws_match X = None"
      by (simp_all add: X ws_match_def)
    with Some have hm: "hyphen_match (X @ Y) = Some n"
      by (simp add: sep_match_def no_dash_match[OF nd] split: option.splits)
    show ?thesis
    proof (cases "hyphen_match X")
      case (Some n2)
      from hyphen_match_extend[OF this, of Y] hm have "n2 = n" by simp
      with Some w1 have "sep_match q (c # cs) = Some n" by (simp add: sep_match_def X)
      then have "split_from q [] X = (c # take (n - 1) cs) # split_from (Some (last (c # take (n - 1) cs))) [] (drop (n - 1) cs)"
        by (simp add: X flush_def)
      moreover have "length (c # take (n - 1) cs) = n" using b(1) le ln by (simp add: X)
      ultimately show ?thesis using ln by simp
    next
      case None
      have "\<forall>i < length d. sep_match None (drop i X) = None"
      proof (intro allI impI)
        fix i assume a: "i < length d"
        have "hyphen_match (drop i X) = None"
        proof (cases "i = 0")
          case True
          with None show ?thesis by simp
        next
          case False
          with a ln le hm None show ?thesis by (intro hyphen_inside[where Y = Y and n = n]) simp_all
        qed
        moreover have "ws_match (drop i X) = None"
          using ns[OF a] dr[OF a] by (cases "drop i X") (simp_all add: ws_match_def)
        ultimately show "sep_match None (drop i X) = None"
          by (simp add: sep_match_def dash_match_def)
      qed
      then show ?thesis by (rule quiet)
    qed
  qed
qed

subsection \<open>Wrapping the lines again\<close>

lemma glue_set: "c \<in> set (glue L) \<Longrightarrow> c = ''     '' \<or> (\<exists>l \<in> set L. c \<in> set l)"
  by (induction L rule: glue.induct) auto

lemma join_indent:
  "L \<noteq> [] \<Longrightarrow>
     join ''\<newline>'' (map (\<lambda>l. ''   '' @ concat l) L) = ''   '' @ join ''\<newline>   '' (map concat L)"
proof (induction L)
  case Nil
  then show ?case by simp
next
  case (Cons l L)
  then show ?case by (cases L) simp_all
qed

lemma shape_concat:
  assumes "shape wid l"
  shows "concat l \<noteq> []" and "\<not> is_space (hd (concat l))" and "\<not> is_space (last (concat l))"
proof -
  from assms have l: "l \<noteq> []" "wordy (hd l)" "wordy (last l)" by (simp_all add: shape_def)
  from l(1) obtain a l' where a: "l = a # l'" by (cases l) auto
  with l(2) have an: "a \<noteq> []" "\<not> is_space (hd a)" by (simp_all add: wordy_def wordy_hd)
  with a show "concat l \<noteq> []" "\<not> is_space (hd (concat l))" by simp_all
  from l(1) have "l = butlast l @ [last l]" by simp
  then have "concat l = concat (butlast l @ [last l])" by simp
  then have c: "concat l = concat (butlast l) @ last l" by simp
  from l(3) have "last l \<noteq> []" "\<not> is_space (last (last l))"
    by (auto simp: wordy_def)
  with c show "\<not> is_space (last (concat l))" by simp
qed

lemma join_lines_trimmed:
  "L \<noteq> [] \<Longrightarrow> \<forall>l \<in> set L. shape wid l \<Longrightarrow>
     join sep (map concat L) \<noteq> [] \<and> \<not> is_space (hd (join sep (map concat L))) \<and>
     \<not> is_space (last (join sep (map concat L)))"
proof (induction L)
  case Nil
  then show ?case by simp
next
  case (Cons l L)
  from Cons.prems have s: "shape wid l" by simp
  note c = shape_concat[OF s]
  show ?case
  proof (cases L)
    case Nil
    with c show ?thesis by simp
  next
    case (Cons l' L')
    with Cons.IH Cons.prems have ih: "join sep (map concat L) \<noteq> []"
      "\<not> is_space (last (join sep (map concat L)))"
      by simp_all
    have e: "join sep (map concat (l # L)) = concat l @ sep @ join sep (map concat L)"
      using Cons by simp
    from c(1,2) ih show ?thesis unfolding e by simp
  qed
qed

lemma sub_newlines_append: "CHR 0x0A \<notin> set a \<Longrightarrow> sub_newlines (a @ b) = a @ sub_newlines b"
  by (induction a) auto

lemma sub_newlines_lines:
  "\<forall>l \<in> set L. CHR 0x0A \<notin> set (concat l) \<Longrightarrow>
     sub_newlines (join ''\<newline>   '' (map concat L)) = concat (glue L)"
proof (induction L rule: glue.induct)
  case 1
  then show ?case by simp
next
  case (2 l)
  then show ?case by (simp add: sub_newlines_id)
next
  case (3 l l' ls)
  let ?R = "join ''\<newline>   '' (map concat (l' # ls))"
  from 3 have ih: "sub_newlines ?R = concat (glue (l' # ls))" and n: "CHR 0x0A \<notin> set (concat l)"
    by simp_all
  have "sub_newlines (''   '' @ ?R) = ''   '' @ sub_newlines ?R"
    by (rule sub_newlines_append) simp
  then have "sub_newlines (''\<newline>   '' @ ?R) = ''     '' @ sub_newlines ?R"
    by simp
  with sub_newlines_append[OF n, of "''\<newline>   '' @ ?R"] ih
  have "sub_newlines (concat l @ ''\<newline>   '' @ ?R) = concat l @ ''     '' @ concat (glue (l' # ls))"
    by simp
  then show ?case by simp
qed

lemma stripjoin_lines:
  assumes "wrap wd (sub_newlines x) = Inr ls" and "wd \<noteq> 0" and "stripped v = Inr x"
  shows "stripjoin wd v = Inr (''\<newline>'' @ join ''\<newline>'' ls)"
  using assms by (simp add: stripjoin_def)

lemma wrap_empty: "0 < wd \<Longrightarrow> wrap wd [] = Inr []"
proof -
  assume "0 < wd"
  moreover have "wrap_chunks wd [] [] = Inr []"
    by (subst wrap_chunks.simps) simp
  ultimately show ?thesis
    by (simp add: wrap_def munge_whitespace_def expandtabs_def split_chunks_Nil)
qed

text \<open>The chunks of the lines joined by blanks are the chunks of each line, joined.\<close>

lemma split_glue:
  "\<forall>l \<in> set L. concat l \<noteq> [] \<and> \<not> is_space (hd (concat l)) \<and> \<not> is_space (last (concat l)) \<and>
      no_dash (concat l) \<Longrightarrow>
     split_from q [] (concat (glue L)) = glue (map (\<lambda>l. split_from None [] (concat l)) L)"
proof (induction L arbitrary: q rule: glue.induct)
  case 1
  then show ?case by (simp add: flush_def)
next
  case (2 l)
  then have "no_dash (concat l)" by simp
  from split_from_indep[OF this, of q "[]" None] show ?case by simp
next
  case (3 l l' ls)
  let ?X = "concat l"
  let ?rest = "concat (glue (l' # ls))"
  from 3(2) have l: "?X \<noteq> []" "\<not> is_space (last ?X)" "no_dash ?X"
    and l': "concat l' \<noteq> []" "\<not> is_space (hd (concat l'))" by simp_all
  have "\<exists>z. ?rest = concat l' @ z" by (cases ls) auto
  then obtain z where "?rest = concat l' @ z" by blast
  with l'(1) have "hd ?rest = hd (concat l')" by simp
  with l'(2) have r: "?rest = [] \<or> \<not> is_space (hd ?rest)" by simp
  have g5: "gap ''     ''" by (simp add: gap_def)
  have e: "concat (glue (l # l' # ls)) = ?X @ (''     '' @ ?rest)" by simp
  have "split_from q [] (?X @ (''     '' @ ?rest)) =
        split_from q [] ?X @ split_from None [] (''     '' @ ?rest)"
    using l(1,2) by (intro split_from_local) simp_all
  also have "split_from q [] ?X = split_from None [] ?X"
    using l(3) by (rule split_from_indep)
  also have "split_from None [] (''     '' @ ?rest) =
      flush [] @ ''     '' # split_from (Some (last ''     '')) [] ?rest"
    using g5 r by (rule split_from_gap)
  also have "split_from (Some (last ''     '')) [] ?rest =
      glue (map (\<lambda>l. split_from None [] (concat l)) (l' # ls))"
    using 3(2) by (intro 3(1)) simp
  finally show ?case unfolding e by (simp add: flush_def)
qed

lemma tight_map:
  "tight wid L \<Longrightarrow>
     \<forall>l \<in> set L. concat (f l) = concat l \<and> length (hd l) \<le> length (hd (f l)) \<Longrightarrow>
     tight wid (map f L)"
proof (induction wid L rule: tight.induct)
  case (1 wid)
  then show ?case by simp
next
  case (2 wid l)
  then show ?case by simp
next
  case (3 wid l l' ls)
  then have "tight wid (map f (l' # ls))" by simp
  moreover from 3(2) have "wid < int (length (concat l)) + 5 + int (length (hd l'))" by simp
  moreover from 3(3) have "concat (f l) = concat l" "length (hd l') \<le> length (hd (f l'))"
    by simp_all
  ultimately show ?case by simp
qed

text \<open>The chunks that the second pass finds in a line of the first pass.\<close>

lemma line_again:
  assumes nd: "no_dash t" and inf: "split_from None [] t = pre @ l @ post" and s: "shape wid l"
  shows "shape wid (split_from None [] (concat l))"
    and "concat (split_from None [] (concat l)) = concat l"
    and "length (hd l) \<le> length (hd (split_from None [] (concat l)))"
    and "no_dash (concat l)" and "set (concat l) \<subseteq> set t"
proof -
  let ?X = "concat l"
  let ?P = "split_from None [] ?X"
  from s have l: "l \<noteq> []" "wordy (hd l)" "wordy (last l)" "int (length ?X) \<le> wid"
    by (simp_all add: shape_def)
  note c = shape_concat[OF s]
  have t: "t = concat pre @ ?X @ concat post"
    using split_from_concat[of None "[]" t] inf by simp
  then show ndX: "no_dash ?X" using nd by (metis no_dash_appendD)
  from t show "set ?X \<subseteq> set t" by (metis Un_iff set_append subsetI)
  show cc: "concat ?P = ?X" by (simp add: split_from_concat)
  from split_from_chunky[of "[]" None ?X] c(1,2)
  have ch: "chunky ?P" and ne: "?P \<noteq> []" and hw: "wordy (hd ?P)" by simp_all
  from split_from_last[of "[]" ?X None] c(1) have "last (last ?P) = last ?X" by simp
  with c(3) have nl: "\<not> is_space (last (last ?P))" by simp
  have "wordy (last ?P) \<or> gap (last ?P)"
    using chunky_member[OF ch last_in_set[OF ne]] .
  moreover have "\<not> gap (last ?P)"
  proof
    assume g: "gap (last ?P)"
    then have "last ?P \<noteq> []" by (simp add: gap_def)
    then have "last (last ?P) \<in> set (last ?P)" by simp
    with g nl show False by (simp add: gap_def)
  qed
  ultimately have lw: "wordy (last ?P)" by simp
  from ne hw lw ch cc l(4) show "shape wid ?P" by (simp add: shape_def)
  from inf have "split_from None [] t = pre @ (l @ post)" by simp
  from split_from_cut[OF nd this] obtain k where k: "k \<le> length t" "concat pre = take k t"
    "\<forall>q. split_from q [] (drop k t) = l @ post"
    by auto
  from k(1,2) have "length (concat pre) = k" by simp
  with t have dk: "drop k t = ?X @ concat post"
    by (metis append_eq_conv_conj)
  from l(1) obtain d l2 where dl: "l = d # l2" by (cases l) auto
  with k(3) dk have sp: "split_from None [] (?X @ concat post) = d # (l2 @ post)" by simp
  have nd2: "no_dash (?X @ concat post)" using nd dk by (metis no_dash_drop)
  have le: "length d \<le> length ?X" by (simp add: dl)
  have wdd: "wordy d" using l(2) dl by simp
  from first_piece[OF nd2 sp le wdd, of None] dl
  show "length (hd l) \<le> length (hd ?P)" by simp
qed

lemma rewrap_fitting:
  assumes s: "stripped v = Inr x" and pos: "0 < wd"
    and fit: "fitting wd (munge_whitespace (sub_newlines x))"
  shows "\<exists>y. stripjoin wd v = Inr y \<and> stripjoin wd (JStr y) = Inr y"
proof -
  let ?t = "munge_whitespace (sub_newlines x)"
  let ?cs = "split_chunks ?t"
  let ?f = "\<lambda>l. ''   '' @ concat l"
  let ?g = "\<lambda>l. split_from None [] (concat l)"
  let ?L = "lines_of (wd - 3) False ?cs"
  from fit have nd: "no_dash ?t" and lead: "?t = [] \<or> \<not> is_space (hd ?t)"
    and sizes: "\<forall>c \<in> set ?cs. if blank c then length c \<le> 5 else int (length c) \<le> wd - 3"
    by (simp_all add: fitting_def)
  have sp: "spaced ?t" by (rule spaced_munge)
  have sc: "?cs = split_from None [] ?t" by (simp add: split_chunks_def)
  from split_from_chunky[of "[]" None ?t] have ch: "chunky ?cs"
    and hd0: "?t \<noteq> [] \<and> \<not> is_space (hd ?t) \<longrightarrow> ?cs \<noteq> [] \<and> wordy (hd ?cs)"
    by (simp_all add: sc)
  have hdw: "?cs = [] \<or> wordy (hd ?cs)"
  proof (cases "?t = []")
    case True
    then show ?thesis by (simp add: split_chunks_Nil)
  next
    case False
    with lead hd0 show ?thesis by simp
  qed
  have fits: "\<forall>c \<in> set ?cs. wordy c \<longrightarrow> int (length c) \<le> wd - 3"
    using sizes by (auto simp: wordy_not_blank)
  have gaps: "\<forall>c \<in> set ?cs. gap c \<longrightarrow> length c \<le> 5"
    using sizes by (auto simp: blank_gap)
  have v1: "valid (wd - 3) False ?cs"
    using ch hdw fits by (simp add: valid_def)
  then have "valid (wd - 3) (([] :: string list) \<noteq> []) ?cs" by simp
  from wrap_chunks_lines_of[OF this] have w1: "wrap_chunks wd ?cs [] = Inr (map ?f ?L)"
    by simp
  have wr1: "wrap wd (sub_newlines x) = Inr (map ?f ?L)"
    using pos w1 by (simp add: wrap_def)
  from pos have nz: "wd \<noteq> 0" by simp
  let ?y = "''\<newline>'' @ join ''\<newline>'' (map ?f ?L)"
  have one: "stripjoin wd v = Inr ?y"
    using wr1 nz s by (rule stripjoin_lines)
  from first_pass[OF v1 gaps]
  have shapes: "\<forall>l \<in> set ?L. shape (wd - 3) l"
    and infx: "\<forall>l \<in> set ?L. \<exists>pre post. ?cs = pre @ l @ post"
    and tg: "tight (wd - 3) ?L"
    by blast+
  have again: "shape (wd - 3) (?g l) \<and> concat (?g l) = concat l \<and>
      length (hd l) \<le> length (hd (?g l)) \<and> no_dash (concat l) \<and> set (concat l) \<subseteq> set ?t"
    if "l \<in> set ?L" for l
  proof -
    from infx that obtain pre post where "split_from None [] ?t = pre @ l @ post"
      unfolding sc by blast
    from line_again[OF nd this] shapes that show ?thesis by blast
  qed
  have wr2: "wrap wd (sub_newlines (strip ?y)) = Inr (map ?f ?L)"
  proof (cases "?L = []")
    case True
    have "strip ''\<newline>'' = []" by (simp add: strip_def)
    with True wrap_empty[OF pos] show ?thesis by simp
  next
    case False
    let ?B = "join ''\<newline>   '' (map concat ?L)"
    have y: "?y = ''\<newline>   '' @ ?B" using join_indent[OF False] by simp
    from join_lines_trimmed[OF False shapes, of "''\<newline>   ''"]
    have B: "trimmed ?B" "?B \<noteq> []" by (simp_all add: trimmed_def)
    have st: "strip ?y = ?B" unfolding y using B by (rule strip_indented)
    have "\<forall>l \<in> set ?L. CHR 0x0A \<notin> set (concat l)"
      using again spaced_no_newline[OF sp] by blast
    then have sn: "sub_newlines ?B = concat (glue ?L)" by (rule sub_newlines_lines)
    let ?t2 = "concat (glue ?L)"
    have in2: "c = CHR '' '' \<or> c \<in> set ?t" if "c \<in> set ?t2" for c
    proof -
      from that obtain d where d: "d \<in> set (glue ?L)" "c \<in> set d" by auto
      from glue_set[OF d(1)] show ?thesis
      proof
        assume "d = ''     ''"
        with d(2) show ?thesis by simp
      next
        assume "\<exists>l \<in> set ?L. d \<in> set l"
        then obtain l where l: "l \<in> set ?L" "d \<in> set l" by blast
        with d(2) have "c \<in> set (concat l)" by auto
        with again[OF l(1)] show ?thesis by blast
      qed
    qed
    have sp2: "spaced ?t2"
      unfolding spaced_def
    proof (intro ballI impI)
      fix c assume "c \<in> set ?t2" and "is_space c"
      with in2[of c] sp show "c = CHR '' ''" by (auto simp: spaced_def)
    qed
    let ?Ps = "map ?g ?L"
    have pre2: "\<forall>l \<in> set ?L. concat l \<noteq> [] \<and> \<not> is_space (hd (concat l)) \<and>
        \<not> is_space (last (concat l)) \<and> no_dash (concat l)"
      using shapes again shape_concat by blast
    have "split_from None [] ?t2 = glue ?Ps"
      using pre2 by (rule split_glue)
    then have sc2: "split_chunks ?t2 = glue ?Ps"
      by (subst split_chunks_def)
    have shP: "\<forall>P \<in> set ?Ps. shape (wd - 3) P" using again by auto
    have tP: "tight (wd - 3) ?Ps"
      using tg again by (intro tight_map) blast+
    have lo: "lines_of (wd - 3) False (glue ?Ps) = ?Ps"
      using shP tP by (rule lines_of_glue)
    from False have "?Ps \<noteq> []" by simp
    with glue_valid[OF shP] have aG: "chunky (glue ?Ps)"
      and fG: "\<forall>c \<in> set (glue ?Ps). wordy c \<longrightarrow> int (length c) \<le> wd - 3"
      and hG: "wordy (hd (glue ?Ps))"
      by blast+
    have "valid (wd - 3) (([] :: string list) \<noteq> []) (glue ?Ps)"
      using aG fG hG by (simp add: valid_def)
    from wrap_chunks_lines_of[OF this] lo
    have w2: "wrap_chunks wd (glue ?Ps) [] = Inr (map ?f ?Ps)" by simp
    have same: "map ?f ?Ps = map ?f ?L" using again by simp
    have "wrap wd ?t2 = Inr (map ?f ?L)"
      using pos w2 same by (simp add: wrap_def munge_id[OF sp2] sc2)
    then show ?thesis by (simp only: st sn)
  qed
  have two: "stripjoin wd (JStr ?y) = Inr ?y"
    using wr2 nz by (rule stripjoin_lines) simp
  from one two show ?thesis by blast
qed

text \<open>
  C2, as amended. With width 0 the wrap operation returns the whitespace-normalized
  text, which has no line break. With a positive width, wrapping a text or a list of
  fragments and wrapping the result again with the same width gives the same lines,
  provided the normalized text has no two hyphens in a row, does not begin with
  whitespace (a list whose first fragment is blank does), has no chunk other than blanks
  that is longer than the width less the 3-character indent, and has at most five blanks
  in a row. The same holds, whatever the hyphens and blanks, for a text whose normalized
  form fits on one line: wrapping gives that one line, and wrapping it again gives it
  again.
\<close>

theorem rewrap_same_lines:
  "(stripped (v :: 'n json) = Inr x \<longrightarrow>
      stripjoin 0 v = Inr (sub_newlines x) \<and> CHR 0x0A \<notin> set (sub_newlines x)) \<and>
   (stripped v = Inr x \<and> 0 < wd \<and> fitting wd (munge_whitespace (sub_newlines x)) \<longrightarrow>
      (\<exists>y. stripjoin wd v = Inr y \<and> stripjoin wd (JStr y :: 'n json) = Inr y)) \<and>
   (int (length (munge_whitespace (sub_newlines (strip s)))) \<le> wd - 3 \<longrightarrow>
      stripjoin wd (JStr s :: 'n json) = Inr (one_line (munge_whitespace (sub_newlines (strip s)))) \<and>
      stripjoin wd (JStr (one_line (munge_whitespace (sub_newlines (strip s)))) :: 'n json) =
        Inr (one_line (munge_whitespace (sub_newlines (strip s)))))"
proof (intro conjI impI)
  assume "stripped v = Inr x"
  then show "stripjoin 0 v = Inr (sub_newlines x)"
    by (simp add: stripjoin_def)
  show "CHR 0x0A \<notin> set (sub_newlines x)"
    by (rule sub_newlines_no_newline)
next
  assume "stripped v = Inr x \<and> 0 < wd \<and> fitting wd (munge_whitespace (sub_newlines x))"
  then show "\<exists>y. stripjoin wd v = Inr y \<and> stripjoin wd (JStr y :: 'n json) = Inr y"
    using rewrap_fitting[of v x wd] by blast
next
  let ?t = "munge_whitespace (sub_newlines (strip s))"
  assume fit: "int (length ?t) \<le> wd - 3"
  have t: "trimmed ?t" "spaced ?t"
    by (simp_all add: trimmed_munge trimmed_sub_newlines trimmed_strip spaced_munge)
  have "stripjoin wd (JStr (strip s) :: 'n json) = Inr (one_line ?t)"
    using trimmed_strip fit by (rule stripjoin_fits)
  then show "stripjoin wd (JStr s :: 'n json) = Inr (one_line ?t)"
    by (simp add: stripjoin_def strip_trimmed[OF trimmed_strip])
  note a = one_line_again[OF t]
  have fit2: "int (length (munge_whitespace (sub_newlines (strip (one_line ?t))))) \<le> wd - 3"
    using fit by (simp only: a(2))
  have "stripjoin wd (JStr (strip (one_line ?t)) :: 'n json) =
        Inr (one_line (munge_whitespace (sub_newlines (strip (one_line ?t)))))"
    using a(1) fit2 by (rule stripjoin_fits)
  then show "stripjoin wd (JStr (one_line ?t) :: 'n json) = Inr (one_line ?t)"
    by (simp add: a(2) stripjoin_def strip_trimmed[OF trimmed_strip])
qed

theorem rewrap_same_lines_witness:
  "stripjoin 0 (JList [JStr '' a '', JStr ''b\<newline>\<newline>c''] :: nat json) = Inr ''a  b  c  '' \<and>
   stripjoin 17 (JList [JStr '' A use-after-free flaw '', JStr ''was found in\<newline>the CVE-2016-5387 fix. ''] :: nat json) =
     Inr ''\<newline>   A use-after-\<newline>   free flaw  was\<newline>   found in  the\<newline>   CVE-2016-5387\<newline>   fix.'' \<and>
   stripjoin 17 (JStr ''\<newline>   A use-after-\<newline>   free flaw  was\<newline>   found in  the\<newline>   CVE-2016-5387\<newline>   fix.'' :: nat json) =
     Inr ''\<newline>   A use-after-\<newline>   free flaw  was\<newline>   found in  the\<newline>   CVE-2016-5387\<newline>   fix.'' \<and>
   stripjoin 70 (JStr ''  It was found that\<newline>httpd used the header.  '' :: nat json) =
     Inr ''\<newline>   It was found that  httpd used the header.'' \<and>
   stripjoin 70 (JStr ''\<newline>   It was found that  httpd used the header.'' :: nat json) =
     Inr ''\<newline>   It was found that  httpd used the header.''"
proof -
  let ?v1 = "JList [JStr '' a '', JStr ''b\<newline>\<newline>c''] :: nat json"
  let ?v2 = "JList [JStr '' A use-after-free flaw '', JStr ''was found in\<newline>the CVE-2016-5387 fix. ''] :: nat json"
  let ?s = "''  It was found that\<newline>httpd used the header.  ''"
  have h1: "stripped ?v1 = Inr ''a  b\<newline>\<newline>c  ''"
    by code_simp
  have v1: "sub_newlines ''a  b\<newline>\<newline>c  '' = ''a  b  c  ''"
    by code_simp
  have h2: "stripped ?v2 = Inr ''A use-after-free flaw  was found in\<newline>the CVE-2016-5387 fix.  ''"
    by code_simp
  have h3: "fitting 17 (munge_whitespace (sub_newlines ''A use-after-free flaw  was found in\<newline>the CVE-2016-5387 fix.  ''))"
    by code_simp
  have e2: "stripjoin 17 ?v2 = Inr ''\<newline>   A use-after-\<newline>   free flaw  was\<newline>   found in  the\<newline>   CVE-2016-5387\<newline>   fix.''"
    by code_simp
  have t: "munge_whitespace (sub_newlines (strip ?s)) = ''It was found that  httpd used the header.''"
    by code_simp
  have h4: "int (length (munge_whitespace (sub_newlines (strip ?s)))) \<le> 70 - 3"
    by (subst t) simp
  have o: "one_line ''It was found that  httpd used the header.'' =
           ''\<newline>   It was found that  httpd used the header.''"
    by code_simp
  note r1 = rewrap_same_lines[of ?v1 "''a  b\<newline>\<newline>c  ''" 70 ?s]
  note r2 = rewrap_same_lines[of ?v2 "''A use-after-free flaw  was found in\<newline>the CVE-2016-5387 fix.  ''" 17 ?s]
  from r1 h1 have "stripjoin 0 ?v1 = Inr (sub_newlines ''a  b\<newline>\<newline>c  '')"
    by blast
  then have a: "stripjoin 0 ?v1 = Inr ''a  b  c  ''"
    by (simp only: v1)
  have "(0::int) < 17" by simp
  with r2 h2 h3 obtain y where y: "stripjoin 17 ?v2 = Inr y" "stripjoin 17 (JStr y :: nat json) = Inr y"
    by blast
  from y(1) e2 have "y = ''\<newline>   A use-after-\<newline>   free flaw  was\<newline>   found in  the\<newline>   CVE-2016-5387\<newline>   fix.''"
    by simp
  with y(2) have b: "stripjoin 17 (JStr ''\<newline>   A use-after-\<newline>   free flaw  was\<newline>   found in  the\<newline>   CVE-2016-5387\<newline>   fix.'' :: nat json) =
      Inr ''\<newline>   A use-after-\<newline>   free flaw  was\<newline>   found in  the\<newline>   CVE-2016-5387\<newline>   fix.''"
    by simp
  from r1 h4 have "stripjoin 70 (JStr ?s :: nat json) =
      Inr (one_line (munge_whitespace (sub_newlines (strip ?s)))) \<and>
    stripjoin 70 (JStr (one_line (munge_whitespace (sub_newlines (strip ?s)))) :: nat json) =
      Inr (one_line (munge_whitespace (sub_newlines (strip ?s))))"
    by blast
  then have c: "stripjoin 70 (JStr ?s :: nat json) =
      Inr ''\<newline>   It was found that  httpd used the header.'' \<and>
    stripjoin 70 (JStr ''\<newline>   It was found that  httpd used the header.'' :: nat json) =
      Inr ''\<newline>   It was found that  httpd used the header.''"
    by (simp only: t o)
  from a e2 b c show ?thesis by (intro conjI) blast+
qed

end
